theory Spec2Isabelle
  imports Main "HOL-Library.Sublist"
begin

section \<open>Circuit cutting: the tape graph and the replacement of wire cuts\<close>

text \<open>
  A shallow embedding of \<^verbatim>\<open>pennylane/transforms/qcut.py\<close>: the functions
  \<^verbatim>\<open>replace_wire_cut_node\<close>, \<^verbatim>\<open>replace_wire_cut_nodes\<close>,
  \<^verbatim>\<open>_add_operator_node\<close> and \<^verbatim>\<open>tape_to_graph\<close>, over a model of the
  directed multigraph they mutate.
\<close>

subsection \<open>Errors\<close>

text \<open>
  \<^verbatim>\<open>KeyError\<close>: a failed dictionary lookup; \<^verbatim>\<open>UnboundLocalError\<close>: a local variable
  read before any assignment; \<^verbatim>\<open>NetworkXError\<close>: the graph library's own error.
\<close>

datatype error = KeyError | UnboundLocalError | NetworkXError

subsection \<open>Operators\<close>

text \<open>
  The graph's nodes are Python objects, hashed by identity. An object is a record with a
  natural number \<open>nid\<close> standing for its identity, the class it is an instance of, and the
  two attributes the module reads: \<^verbatim>\<open>wires\<close> and \<^verbatim>\<open>obs\<close> (\<open>None\<close> when the object
  has no observable). A constructor call takes the next unused identity from an allocation
  counter that the model threads through every function that creates objects.
\<close>

datatype kind = Gate | WireCut | MeasureNode | PrepareNode | MeasurementProcess

text \<open>
  An observable is either a plain one, with its wires, or a \<^verbatim>\<open>Tensor\<close>, whose attribute
  \<^verbatim>\<open>obs\<close> lists its terms; a term is a plain observable, kept here by its wires.
\<close>

datatype 'w observable = Observable "'w list" | Tensor "'w list list"

record 'w node =
  nid :: nat
  kind :: kind
  wires :: "'w list"
  obs :: "'w observable option"

subsection \<open>The directed multigraph\<close>

text \<open>
  A \<^verbatim>\<open>MultiDiGraph\<close> keeps its nodes in a dictionary from node to attributes, in
  insertion order, and its edges in nested dictionaries. The model keeps the nodes as an
  association list with the one attribute the module uses, \<^verbatim>\<open>order\<close> (\<open>None\<close> when the
  node has no such attribute), and the edges as a list in insertion order with the one
  attribute \<^verbatim>\<open>wire\<close>. Parallel edges are separate entries of the list; the integer keys
  that the library gives them are never read by the module and are left out.
\<close>

record 'w edge =
  e_src :: "'w node"
  e_dst :: "'w node"
  e_wire :: "'w option"

record 'w graph =
  g_nodes :: "('w node \<times> int option) list"
  g_edges :: "'w edge list"

definition MultiDiGraph :: "'w graph" where
  "MultiDiGraph = \<lparr>g_nodes = [], g_edges = []\<rparr>"

definition has_node :: "'w graph \<Rightarrow> 'w node \<Rightarrow> bool" where
  "has_node g x = (x \<in> set (map fst (g_nodes g)))"

text \<open>The attribute \<^verbatim>\<open>order\<close> of a node, \<open>None\<close> when the node or the attribute is missing.\<close>

definition node_order :: "'w graph \<Rightarrow> 'w node \<Rightarrow> int option" where
  "node_order g x = (case map_of (g_nodes g) x of None \<Rightarrow> None | Some a \<Rightarrow> a)"

text \<open>
  \<^verbatim>\<open>add_node(n, order=o)\<close> appends a new node, or updates the attribute of a node that
  is already there, which keeps its place.
\<close>

definition add_node :: "'w graph \<Rightarrow> 'w node \<Rightarrow> int \<Rightarrow> 'w graph" where
  "add_node g x order =
     (if has_node g x
      then g\<lparr>g_nodes := map (\<lambda>(y, a). if y = x then (y, Some order) else (y, a)) (g_nodes g)\<rparr>
      else g\<lparr>g_nodes := g_nodes g @ [(x, Some order)]\<rparr>)"

text \<open>\<^verbatim>\<open>add_edge\<close> first adds each endpoint that is missing, with no attributes.\<close>

definition touch_node :: "'w graph \<Rightarrow> 'w node \<Rightarrow> 'w graph" where
  "touch_node g x = (if has_node g x then g else g\<lparr>g_nodes := g_nodes g @ [(x, None)]\<rparr>)"

definition add_edge :: "'w graph \<Rightarrow> 'w node \<Rightarrow> 'w node \<Rightarrow> 'w \<Rightarrow> 'w graph" where
  "add_edge g u v w =
     (let g1 = touch_node g u; g2 = touch_node g1 v
      in g2\<lparr>g_edges := g_edges g2 @ [\<lparr>e_src = u, e_dst = v, e_wire = Some w\<rparr>]\<rparr>)"

text \<open>\<^verbatim>\<open>remove_node\<close> deletes the node and every edge at it; it raises on a missing node.\<close>

definition remove_node :: "'w graph \<Rightarrow> 'w node \<Rightarrow> error + 'w graph" where
  "remove_node g x =
     (if \<not> has_node g x then Inl NetworkXError
      else Inr \<lparr>g_nodes = filter (\<lambda>(y, a). y \<noteq> x) (g_nodes g),
                g_edges = filter (\<lambda>e. e_src e \<noteq> x \<and> e_dst e \<noteq> x) (g_edges g)\<rparr>)"

text \<open>
  \<^verbatim>\<open>graph.pred[v].items()\<close> yields the predecessors of \<open>v\<close> in the order in which their
  first edge to \<open>v\<close> was added, each with the attributes of its edges to \<open>v\<close>, in insertion
  order; \<^verbatim>\<open>graph.succ[v].items()\<close> likewise.
\<close>

definition first_occurrences :: "'a list \<Rightarrow> 'a list" where
  "first_occurrences xs = rev (remdups (rev xs))"

definition pred_items :: "'w graph \<Rightarrow> 'w node \<Rightarrow> ('w node \<times> 'w option list) list" where
  "pred_items g v =
     map (\<lambda>u. (u, map e_wire (filter (\<lambda>e. e_src e = u \<and> e_dst e = v) (g_edges g))))
       (first_occurrences (map e_src (filter (\<lambda>e. e_dst e = v) (g_edges g))))"

definition succ_items :: "'w graph \<Rightarrow> 'w node \<Rightarrow> ('w node \<times> 'w option list) list" where
  "succ_items g v =
     map (\<lambda>u. (u, map e_wire (filter (\<lambda>e. e_src e = v \<and> e_dst e = u) (g_edges g))))
       (first_occurrences (map e_dst (filter (\<lambda>e. e_src e = v) (g_edges g))))"

subsection \<open>\<^verbatim>\<open>replace_wire_cut_node\<close>\<close>

text \<open>
  The two scanning loops (source lines 74 to 84): for each neighbour and each edge to it,
  \<^verbatim>\<open>d["wire"]\<close> is read, which raises \<^verbatim>\<open>KeyError\<close> on an edge without the attribute,
  and the neighbour is stored under that wire; a later edge on the same wire overwrites.
\<close>

fun scan_data :: "'w node \<Rightarrow> 'w option list \<Rightarrow> ('w \<rightharpoonup> 'w node) \<Rightarrow> error + ('w \<rightharpoonup> 'w node)" where
  "scan_data op [] m = Inr m"
| "scan_data op (d # ds) m =
     (case d of None \<Rightarrow> Inl KeyError | Some wire \<Rightarrow> scan_data op ds (m(wire \<mapsto> op)))"

fun on_wire :: "('w node \<times> 'w option list) list \<Rightarrow> ('w \<rightharpoonup> 'w node) \<Rightarrow> error + ('w \<rightharpoonup> 'w node)" where
  "on_wire [] m = Inr m"
| "on_wire ((op, data) # rest) m =
     (case scan_data op data m of Inl e \<Rightarrow> Inl e | Inr m' \<Rightarrow> on_wire rest m')"

text \<open>\<^verbatim>\<open>MeasureNode(wires=wire)\<close> and \<^verbatim>\<open>PrepareNode(wires=wire)\<close>: a new object.\<close>

definition new_node :: "kind \<Rightarrow> nat \<Rightarrow> 'w \<Rightarrow> 'w node" where
  "new_node k i w = \<lparr>nid = i, kind = k, wires = [w], obs = None\<rparr>"

text \<open>
  The loop over \<^verbatim>\<open>node.wires\<close> (source lines 89 to 107). The state is the graph and the
  allocation counter.
\<close>

fun cut_wires :: "('w \<rightharpoonup> 'w node) \<Rightarrow> ('w \<rightharpoonup> 'w node) \<Rightarrow> int \<Rightarrow> 'w list \<Rightarrow>
    'w graph \<times> nat \<Rightarrow> 'w graph \<times> nat" where
  "cut_wires pw sw order [] s = s"
| "cut_wires pw sw order (wire # ws) (g, n) =
     (let predecessor = pw wire;
          successor = sw wire;
          meas = new_node MeasureNode n wire;
          prep = new_node PrepareNode (Suc n) wire;
          g1 = add_node g meas order;
          g2 = add_node g1 prep order;
          g3 = add_edge g2 meas prep wire;
          g4 = (case predecessor of None \<Rightarrow> g3 | Some p \<Rightarrow> add_edge g3 p meas wire);
          g5 = (case successor of None \<Rightarrow> g4 | Some s \<Rightarrow> add_edge g4 prep s wire)
      in cut_wires pw sw order ws (g5, n + 2))"

text \<open>
  The function mutates the caller's graph, so a raised error comes with the state the
  graph is left in. Every raise of this function happens before its first mutation.
\<close>

definition replace_wire_cut_node :: "'w node \<Rightarrow> 'w graph \<times> nat \<Rightarrow>
    (error \<times> ('w graph \<times> nat)) + ('w graph \<times> nat)" where
  "replace_wire_cut_node node s =
     (let graph = fst s; n = snd s in
      if \<not> has_node graph node then Inl (KeyError, s)
      else case on_wire (pred_items graph node) Map.empty of
        Inl e \<Rightarrow> Inl (e, s)
      | Inr predecessor_on_wire \<Rightarrow>
      (case on_wire (succ_items graph node) Map.empty of
        Inl e \<Rightarrow> Inl (e, s)
      | Inr successor_on_wire \<Rightarrow>
      (case node_order graph node of
        None \<Rightarrow> Inl (KeyError, s)
      | Some order \<Rightarrow>
      (case remove_node graph node of
        Inl e \<Rightarrow> Inl (e, s)
      | Inr g' \<Rightarrow>
          Inr (cut_wires predecessor_on_wire successor_on_wire order (wires node) (g', n))))))"

subsection \<open>\<^verbatim>\<open>replace_wire_cut_nodes\<close>\<close>

text \<open>The loop runs over \<^verbatim>\<open>list(graph.nodes)\<close>, a copy taken before the first rewrite.\<close>

fun replace_loop :: "'w node list \<Rightarrow> 'w graph \<times> nat \<Rightarrow>
    (error \<times> ('w graph \<times> nat)) + ('w graph \<times> nat)" where
  "replace_loop [] s = Inr s"
| "replace_loop (op # ops) s =
     (if kind op = WireCut
      then (case replace_wire_cut_node op s of
              Inl e \<Rightarrow> Inl e
            | Inr s' \<Rightarrow> replace_loop ops s')
      else replace_loop ops s)"

definition replace_wire_cut_nodes :: "'w graph \<times> nat \<Rightarrow>
    (error \<times> ('w graph \<times> nat)) + ('w graph \<times> nat)" where
  "replace_wire_cut_nodes s = replace_loop (map fst (g_nodes (fst s))) s"

subsection \<open>\<^verbatim>\<open>_add_operator_node\<close> and \<^verbatim>\<open>tape_to_graph\<close>\<close>

text \<open>
  \<^verbatim>\<open>wire_latest_node\<close> is a dictionary from wire to node or \<^verbatim>\<open>None\<close>: a wire that
  is not a key makes the lookup raise.
\<close>

type_synonym 'w latest = "'w \<rightharpoonup> 'w node option"

fun add_wires :: "'w node \<Rightarrow> 'w list \<Rightarrow> 'w graph \<Rightarrow> 'w latest \<Rightarrow> error + ('w graph \<times> 'w latest)" where
  "add_wires op [] g wl = Inr (g, wl)"
| "add_wires op (wire # ws) g wl =
     (case wl wire of
        None \<Rightarrow> Inl KeyError
      | Some None \<Rightarrow> add_wires op ws g (wl(wire \<mapsto> Some op))
      | Some (Some parent_op) \<Rightarrow>
          add_wires op ws (add_edge g parent_op op wire) (wl(wire \<mapsto> Some op)))"

definition add_operator_node :: "'w graph \<Rightarrow> 'w node \<Rightarrow> int \<Rightarrow> 'w latest \<Rightarrow>
    error + ('w graph \<times> 'w latest)" where
  "add_operator_node g op order wl = add_wires op (wires op) (add_node g op order) wl"

record 'w tape =
  operations :: "'w node list"
  measurements :: "'w node list"
  tape_wires :: "'w list"

text \<open>
  The loop over \<^verbatim>\<open>enumerate(tape.operations)\<close>. The loop variable \<^verbatim>\<open>order\<close> is unbound
  until the first iteration: it is an optional value, \<open>None\<close> when unbound.
\<close>

fun operations_loop :: "nat \<Rightarrow> 'w node list \<Rightarrow> 'w graph \<Rightarrow> 'w latest \<Rightarrow> int option \<Rightarrow>
    error + ('w graph \<times> 'w latest \<times> int option)" where
  "operations_loop i [] g wl order = Inr (g, wl, order)"
| "operations_loop i (op # ops) g wl order =
     (case add_operator_node g op (int i) wl of
        Inl e \<Rightarrow> Inl e
      | Inr (g', wl') \<Rightarrow> operations_loop (Suc i) ops g' wl' (Some (int i)))"

text \<open>
  The loop over the terms of a tensor observable: each term gets a new
  \<^verbatim>\<open>MeasurementProcess\<close> object, added at the same order.
\<close>

definition term_node :: "nat \<Rightarrow> 'w list \<Rightarrow> 'w node" where
  "term_node i ws = \<lparr>nid = i, kind = MeasurementProcess, wires = ws, obs = Some (Observable ws)\<rparr>"

fun terms_loop :: "'w list list \<Rightarrow> int \<Rightarrow> 'w graph \<Rightarrow> 'w latest \<Rightarrow> nat \<Rightarrow>
    error + ('w graph \<times> 'w latest \<times> nat)" where
  "terms_loop [] order g wl n = Inr (g, wl, n)"
| "terms_loop (t # ts) order g wl n =
     (case add_operator_node g (term_node n t) order wl of
        Inl e \<Rightarrow> Inl e
      | Inr (g', wl') \<Rightarrow> terms_loop ts order g' wl' (Suc n))"

fun measurements_loop :: "'w node list \<Rightarrow> int \<Rightarrow> 'w graph \<Rightarrow> 'w latest \<Rightarrow> nat \<Rightarrow>
    error + ('w graph \<times> nat)" where
  "measurements_loop [] order g wl n = Inr (g, n)"
| "measurements_loop (m # ms) order g wl n =
     (case obs m of
        Some (Tensor ts) \<Rightarrow>
          (case terms_loop ts order g wl n of
             Inl e \<Rightarrow> Inl e
           | Inr (g', wl', n') \<Rightarrow> measurements_loop ms order g' wl' n')
      | _ \<Rightarrow>
          (case add_operator_node g m order wl of
             Inl e \<Rightarrow> Inl e
           | Inr (g', wl') \<Rightarrow> measurements_loop ms (order + 1) g' wl' n))"

text \<open>
  \<^verbatim>\<open>tape_to_graph\<close> builds a graph of its own, so an error leaves nothing behind. It
  returns the graph; the model returns the allocation counter with it.
\<close>

definition tape_to_graph :: "'w tape \<Rightarrow> nat \<Rightarrow> error + ('w graph \<times> nat)" where
  "tape_to_graph tape n =
     (let wire_latest_node = (\<lambda>w. if w \<in> set (tape_wires tape) then Some None else None)
      in case operations_loop 0 (operations tape) MultiDiGraph wire_latest_node None of
           Inl e \<Rightarrow> Inl e
         | Inr (graph, wl, order) \<Rightarrow>
             (case order of
                None \<Rightarrow> Inl UnboundLocalError
              | Some order \<Rightarrow> measurements_loop (measurements tape) (order + 1) graph wl n))"

subsection \<open>Properties of graphs and tapes\<close>

text \<open>
  What the graph library itself maintains: a node is a key once, and both endpoints of
  an edge are nodes.
\<close>

definition graph_ok :: "'w graph \<Rightarrow> bool" where
  "graph_ok g \<longleftrightarrow>
     distinct (map fst (g_nodes g)) \<and>
     (\<forall>e \<in> set (g_edges g). has_node g (e_src e) \<and> has_node g (e_dst e))"

text \<open>The data model of the circuit graph: every node has an order, every edge a wire.\<close>

definition attrs_ok :: "'w graph \<Rightarrow> bool" where
  "attrs_ok g \<longleftrightarrow>
     (\<forall>(x, a) \<in> set (g_nodes g). a \<noteq> None) \<and> (\<forall>e \<in> set (g_edges g). e_wire e \<noteq> None)"

text \<open>
  The allocation counter is beyond the identity of every object in the graph, so that an
  object made from it is new.
\<close>

definition ids_below :: "nat \<Rightarrow> 'w graph \<Rightarrow> bool" where
  "ids_below n g \<longleftrightarrow> (\<forall>x \<in> set (map fst (g_nodes g)). nid x < n)"

text \<open>
  The chain invariant: on each wire the edges form simple paths. No edge is a loop, no
  node has two distinct predecessors on one wire, and none has two distinct successors on
  one wire.
\<close>

definition no_self_loops :: "'w graph \<Rightarrow> bool" where
  "no_self_loops g \<longleftrightarrow> (\<forall>e \<in> set (g_edges g). e_src e \<noteq> e_dst e)"

definition no_branching :: "'w graph \<Rightarrow> bool" where
  "no_branching g \<longleftrightarrow>
     (\<forall>e1 \<in> set (g_edges g). \<forall>e2 \<in> set (g_edges g). e_wire e1 = e_wire e2 \<longrightarrow>
        (e_dst e1 = e_dst e2 \<longrightarrow> e_src e1 = e_src e2) \<and>
        (e_src e1 = e_src e2 \<longrightarrow> e_dst e1 = e_dst e2))"

definition chain_invariant :: "'w graph \<Rightarrow> bool" where
  "chain_invariant g \<longleftrightarrow> no_self_loops g \<and> no_branching g"

text \<open>Order monotonicity: along every edge the order does not decrease.\<close>

definition order_le :: "'w graph \<Rightarrow> 'w node \<Rightarrow> 'w node \<Rightarrow> bool" where
  "order_le g u v =
     (case node_order g u of
        None \<Rightarrow> False
      | Some a \<Rightarrow> (case node_order g v of None \<Rightarrow> False | Some b \<Rightarrow> a \<le> b))"

definition order_monotone :: "'w graph \<Rightarrow> bool" where
  "order_monotone g \<longleftrightarrow> (\<forall>e \<in> set (g_edges g). order_le g (e_src e) (e_dst e))"

text \<open>
  The predecessor and the successor of a node on a wire: the other end of the first edge
  with that wire, \<open>None\<close> when there is no such edge.
\<close>

definition wire_pred :: "'w graph \<Rightarrow> 'w node \<Rightarrow> 'w \<Rightarrow> 'w node option" where
  "wire_pred g v w =
     map_option e_src (find (\<lambda>e. e_dst e = v \<and> e_wire e = Some w) (g_edges g))"

definition wire_succ :: "'w graph \<Rightarrow> 'w node \<Rightarrow> 'w \<Rightarrow> 'w node option" where
  "wire_succ g v w =
     map_option e_dst (find (\<lambda>e. e_src e = v \<and> e_wire e = Some w) (g_edges g))"

definition mk_edge :: "'w node \<Rightarrow> 'w node \<Rightarrow> 'w \<Rightarrow> 'w edge" where
  "mk_edge u v w = \<lparr>e_src = u, e_dst = v, e_wire = Some w\<rparr>"

text \<open>
  A well-formed tape: its operations and measurements are distinct objects, all made
  before the allocation counter; the wires of an operator, and of each term of a tensor
  observable, are distinct.
\<close>

definition tensor_terms :: "'w node \<Rightarrow> 'w list list" where
  "tensor_terms m = (case obs m of Some (Tensor ts) \<Rightarrow> ts | _ \<Rightarrow> [])"

definition wf_tape :: "'w tape \<Rightarrow> nat \<Rightarrow> bool" where
  "wf_tape tape n \<longleftrightarrow>
     distinct (map nid (operations tape @ measurements tape)) \<and>
     (\<forall>x \<in> set (operations tape @ measurements tape). nid x < n \<and> distinct (wires x)) \<and>
     (\<forall>m \<in> set (measurements tape). \<forall>t \<in> set (tensor_terms m). distinct t)"

text \<open>
  The nodes that stand for the \<open>j\<close>-th measurement in the graph: the measurement itself,
  or, for a tensor observable, the objects made for its terms, whose identities follow
  those made for the earlier measurements.
\<close>

definition measurement_nodes :: "'w node list \<Rightarrow> nat \<Rightarrow> nat \<Rightarrow> 'w node list" where
  "measurement_nodes ms n j =
     (case obs (ms ! j) of
        Some (Tensor ts) \<Rightarrow>
          map (\<lambda>i. term_node (n + length (concat (map tensor_terms (take j ms))) + i) (ts ! i))
            [0..<length ts]
      | _ \<Rightarrow> [ms ! j])"

text \<open>The state a call leaves behind, whether it returned or raised.\<close>

definition state_after :: "(error \<times> 's) + 's \<Rightarrow> 's" where
  "state_after r = (case r of Inl (e, s) \<Rightarrow> s | Inr s \<Rightarrow> s)"

text \<open>The states that a tape's graph can reach by rewriting.\<close>

inductive rewritten :: "'w tape \<Rightarrow> nat \<Rightarrow> 'w graph \<times> nat \<Rightarrow> bool" for tape n where
  built: "tape_to_graph tape n = Inr s \<Longrightarrow> rewritten tape n s"
| single: "rewritten tape n s \<Longrightarrow> rewritten tape n (state_after (replace_wire_cut_node x s))"
| batch: "rewritten tape n s \<Longrightarrow> rewritten tape n (state_after (replace_wire_cut_nodes s))"

text \<open>A graph extends another when it keeps its nodes and edges and appends to them.\<close>

definition extends :: "'w graph \<Rightarrow> 'w graph \<Rightarrow> bool" where
  "extends g g' \<longleftrightarrow> prefix (g_nodes g) (g_nodes g') \<and> prefix (g_edges g) (g_edges g')"

subsection \<open>The graph after a replacement, in closed form\<close>

text \<open>
  The nodes and the edges that the loop over the wires of a cut appends, given the
  neighbours recorded for each wire, the order of the cut and the allocation counter.
\<close>
fun cut_nodes :: "nat \<Rightarrow> int \<Rightarrow> 'w list \<Rightarrow> ('w node \<times> int option) list" where
  "cut_nodes n order [] = []"
| "cut_nodes n order (w # ws) =
     (new_node MeasureNode n w, Some order) # (new_node PrepareNode (Suc n) w, Some order) #
     cut_nodes (n + 2) order ws"

fun cut_edges :: "('w \<rightharpoonup> 'w node) \<Rightarrow> ('w \<rightharpoonup> 'w node) \<Rightarrow> nat \<Rightarrow> 'w list \<Rightarrow> 'w edge list" where
  "cut_edges pw sw n [] = []"
| "cut_edges pw sw n (w # ws) =
     mk_edge (new_node MeasureNode n w) (new_node PrepareNode (Suc n) w) w #
     (case pw w of None \<Rightarrow> [] | Some p \<Rightarrow> [mk_edge p (new_node MeasureNode n w) w]) @
     (case sw w of None \<Rightarrow> [] | Some s \<Rightarrow> [mk_edge (new_node PrepareNode (Suc n) w) s w]) @
     cut_edges pw sw (n + 2) ws"

definition rewired :: "'w graph \<Rightarrow> 'w node \<Rightarrow> nat \<Rightarrow> int \<Rightarrow> ('w \<rightharpoonup> 'w node) \<Rightarrow>
    ('w \<rightharpoonup> 'w node) \<Rightarrow> 'w graph" where
  "rewired g x n order pw sw =
     \<lparr>g_nodes = filter (\<lambda>(y, a). y \<noteq> x) (g_nodes g) @ cut_nodes n order (wires x),
      g_edges = filter (\<lambda>e. e_src e \<noteq> x \<and> e_dst e \<noteq> x) (g_edges g) @
        cut_edges pw sw n (wires x)\<rparr>"

subsection \<open>An example circuit\<close>

text \<open>
  A gate on wire 0, a cut of wires 0 and 1, a gate on wire 1; then a measurement of a
  tensor observable on wires 0 and 1, and a measurement on wire 1.
\<close>

definition ex_A :: "nat node" where
  "ex_A = \<lparr>nid = 0, kind = Gate, wires = [0], obs = None\<rparr>"

definition ex_cut :: "nat node" where
  "ex_cut = \<lparr>nid = 1, kind = WireCut, wires = [0, 1], obs = None\<rparr>"

definition ex_B :: "nat node" where
  "ex_B = \<lparr>nid = 2, kind = Gate, wires = [1], obs = None\<rparr>"

definition ex_P :: "nat node" where
  "ex_P = \<lparr>nid = 3, kind = MeasurementProcess, wires = [0, 1], obs = Some (Tensor [[0], [1]])\<rparr>"

definition ex_Q :: "nat node" where
  "ex_Q = \<lparr>nid = 4, kind = MeasurementProcess, wires = [1], obs = Some (Observable [1])\<rparr>"

definition ex_tape :: "nat tape" where
  "ex_tape = \<lparr>operations = [ex_A, ex_cut, ex_B], measurements = [ex_P, ex_Q], tape_wires = [0, 1]\<rparr>"

definition ex_graph :: "nat graph" where
  "ex_graph =
     \<lparr>g_nodes = [(ex_A, Some 0), (ex_cut, Some 1), (ex_B, Some 2),
                 (term_node 5 [0], Some 3), (term_node 6 [1], Some 3), (ex_Q, Some 3)],
      g_edges = [mk_edge ex_A ex_cut 0, mk_edge ex_cut ex_B 1, mk_edge ex_cut (term_node 5 [0]) 0,
                 mk_edge ex_B (term_node 6 [1]) 1, mk_edge (term_node 6 [1]) ex_Q 1]\<rparr>"

text \<open>The graph of the example circuit after the replacement of its cut.\<close>

definition ex_after :: "nat graph" where
  "ex_after =
     \<lparr>g_nodes = [(ex_A, Some 0), (ex_B, Some 2),
                 (term_node 5 [0], Some 3), (term_node 6 [1], Some 3), (ex_Q, Some 3),
                 (new_node MeasureNode 7 0, Some 1), (new_node PrepareNode 8 0, Some 1),
                 (new_node MeasureNode 9 1, Some 1), (new_node PrepareNode 10 1, Some 1)],
      g_edges = [mk_edge ex_B (term_node 6 [1]) 1, mk_edge (term_node 6 [1]) ex_Q 1,
                 mk_edge (new_node MeasureNode 7 0) (new_node PrepareNode 8 0) 0,
                 mk_edge ex_A (new_node MeasureNode 7 0) 0,
                 mk_edge (new_node PrepareNode 8 0) (term_node 5 [0]) 0,
                 mk_edge (new_node MeasureNode 9 1) (new_node PrepareNode 10 1) 1,
                 mk_edge (new_node PrepareNode 10 1) ex_B 1]\<rparr>"

text \<open>A graph with no cut: two gates on wire 0.\<close>

definition ex_plain :: "nat graph" where
  "ex_plain = \<lparr>g_nodes = [(ex_A, Some 0), (ex_B, Some 1)], g_edges = [mk_edge ex_A ex_B 0]\<rparr>"

section \<open>Errors and the batch rewrite without cuts\<close>

text \<open>
  Claim C6. For every graph and every node that is absent from it,
  \<^verbatim>\<open>replace_wire_cut_node\<close> raises \<^verbatim>\<open>KeyError\<close>, and the graph (with the allocation
  counter) is left as it was.
\<close>

theorem replace_absent_node_raises:
  "\<not> has_node g node \<Longrightarrow> replace_wire_cut_node node (g, n) = Inl (KeyError, (g, n))"
  by (simp add: replace_wire_cut_node_def)

theorem replace_absent_node_raises_witness:
  "\<not> has_node ex_plain ex_cut \<and>
   replace_wire_cut_node ex_cut (ex_plain, 3) = Inl (KeyError, (ex_plain, 3))"
proof -
  have absent: "\<not> has_node ex_plain ex_cut"
    by (simp add: has_node_def ex_plain_def ex_cut_def ex_A_def ex_B_def)
  show ?thesis
    using absent replace_absent_node_raises [OF absent, of 3] by simp
qed

lemma replace_loop_no_cut:
  "\<forall>x \<in> set xs. kind x \<noteq> WireCut \<Longrightarrow> replace_loop xs s = Inr s"
  by (induction xs) auto

text \<open>
  Claim C7. On a graph with no \<^verbatim>\<open>WireCut\<close> node, \<^verbatim>\<open>replace_wire_cut_nodes\<close> returns
  with the graph unchanged: the same nodes, edges and attributes, and no object made.
\<close>

theorem replace_nodes_without_cut:
  "\<forall>x \<in> set (map fst (g_nodes g)). kind x \<noteq> WireCut \<Longrightarrow>
   replace_wire_cut_nodes (g, n) = Inr (g, n)"
  unfolding replace_wire_cut_nodes_def by (rule replace_loop_no_cut) simp

theorem replace_nodes_without_cut_witness:
  "map fst (g_nodes ex_plain) = [ex_A, ex_B] \<and> kind ex_A = Gate \<and> kind ex_B = Gate \<and>
   replace_wire_cut_nodes (ex_plain, 3) = Inr (ex_plain, 3)"
proof -
  have no_cut: "\<forall>x \<in> set (map fst (g_nodes ex_plain)). kind x \<noteq> WireCut"
    by (simp add: ex_plain_def ex_A_def ex_B_def)
  show ?thesis
    using replace_nodes_without_cut [OF no_cut, of 3]
    by (simp add: ex_plain_def ex_A_def ex_B_def)
qed

text \<open>
  Claim C8. With an empty operation sequence, \<^verbatim>\<open>tape_to_graph\<close> raises: the variable
  \<^verbatim>\<open>order\<close> is unbound when the statement after the loop reads it. The measurements
  play no part.
\<close>

theorem tape_to_graph_no_operations:
  "operations tape = [] \<Longrightarrow> tape_to_graph tape n = Inl UnboundLocalError"
  by (simp add: tape_to_graph_def)

theorem tape_to_graph_no_operations_witness:
  "operations (ex_tape\<lparr>operations := []\<rparr>) = [] \<and>
   measurements (ex_tape\<lparr>operations := []\<rparr>) \<noteq> [] \<and>
   tape_to_graph (ex_tape\<lparr>operations := []\<rparr>) 5 = Inl UnboundLocalError"
  using tape_to_graph_no_operations [of "ex_tape\<lparr>operations := []\<rparr>" 5]
  by (simp add: ex_tape_def)

section \<open>Facts about the graph operations\<close>

lemma has_node_add_node [simp]: "has_node (add_node g x a) y \<longleftrightarrow> y = x \<or> has_node g y"
  by (force simp: add_node_def has_node_def split: if_splits)

lemma g_edges_add_node [simp]: "g_edges (add_node g x a) = g_edges g"
  by (simp add: add_node_def)

lemma g_nodes_add_node_new:
  "\<not> has_node g x \<Longrightarrow> g_nodes (add_node g x a) = g_nodes g @ [(x, Some a)]"
  by (simp add: add_node_def)

lemma touch_node_present [simp]: "has_node g x \<Longrightarrow> touch_node g x = g"
  by (simp add: touch_node_def)

lemma add_node_new:
  "\<not> has_node g x \<Longrightarrow>
   add_node g x a = \<lparr>g_nodes = g_nodes g @ [(x, Some a)], g_edges = g_edges g\<rparr>"
  by (cases g) (simp add: add_node_def)

lemma add_edge_present:
  "has_node g u \<Longrightarrow> has_node g v \<Longrightarrow>
   add_edge g u v w = \<lparr>g_nodes = g_nodes g, g_edges = g_edges g @ [mk_edge u v w]\<rparr>"
  by (cases g) (simp add: add_edge_def mk_edge_def)

lemma has_node_edges_update [simp]: "has_node (g\<lparr>g_edges := es\<rparr>) x = has_node g x"
  by (simp add: has_node_def)

lemma has_node_graph [simp]:
  "has_node \<lparr>g_nodes = ns, g_edges = es\<rparr> x \<longleftrightarrow> x \<in> fst ` set ns"
  by (simp add: has_node_def)

lemma ids_below_fresh: "ids_below n g \<Longrightarrow> n \<le> nid x \<Longrightarrow> \<not> has_node g x"
  by (auto simp: ids_below_def has_node_def)

lemma cut_wires_eq:
  assumes "ids_below n g"
    and "\<And>w p. pw w = Some p \<Longrightarrow> has_node g p"
    and "\<And>w s. sw w = Some s \<Longrightarrow> has_node g s"
  shows "cut_wires pw sw order ws (g, n) =
     (\<lparr>g_nodes = g_nodes g @ cut_nodes n order ws,
       g_edges = g_edges g @ cut_edges pw sw n ws\<rparr>, n + 2 * length ws)"
  using assms
proof (induction ws arbitrary: g n)
  case Nil
  then show ?case by simp
next
  case (Cons w ws)
  let ?meas = "new_node MeasureNode n w"
  let ?prep = "new_node PrepareNode (Suc n) w"
  let ?g2 = "add_node (add_node g ?meas order) ?prep order"
  let ?g5 = "\<lparr>g_nodes = g_nodes g @ [(?meas, Some order), (?prep, Some order)],
      g_edges = g_edges g @ mk_edge ?meas ?prep w #
        (case pw w of None \<Rightarrow> [] | Some p \<Rightarrow> [mk_edge p ?meas w]) @
        (case sw w of None \<Rightarrow> [] | Some s \<Rightarrow> [mk_edge ?prep s w])\<rparr>"
  have m: "\<not> has_node g ?meas"
    by (rule ids_below_fresh [OF Cons.prems(1)]) (simp add: new_node_def)
  have p: "\<not> has_node g ?prep"
    by (rule ids_below_fresh [OF Cons.prems(1)]) (simp add: new_node_def)
  have mp: "?meas \<noteq> ?prep" by (simp add: new_node_def)
  have g2: "?g2 = \<lparr>g_nodes = g_nodes g @ [(?meas, Some order), (?prep, Some order)],
      g_edges = g_edges g\<rparr>"
  proof -
    have "\<not> has_node (add_node g ?meas order) ?prep"
      using p mp by simp
    then have "?g2 = \<lparr>g_nodes = g_nodes (add_node g ?meas order) @ [(?prep, Some order)],
        g_edges = g_edges (add_node g ?meas order)\<rparr>"
      by (rule add_node_new)
    then show ?thesis
      by (simp add: add_node_new [OF m])
  qed
  have step: "cut_wires pw sw order (w # ws) (g, n) = cut_wires pw sw order ws (?g5, n + 2)"
  proof -
    have "has_node ?g2 ?meas" "has_node ?g2 ?prep" by simp_all
    moreover have "\<And>q. pw w = Some q \<Longrightarrow> has_node ?g2 q" "\<And>q. sw w = Some q \<Longrightarrow> has_node ?g2 q"
      using Cons.prems(2,3) by auto
    ultimately show ?thesis
      by (cases "pw w"; cases "sw w") (simp_all add: Let_def add_edge_present g2)
  qed
  have ids: "ids_below (n + 2) ?g5"
    using Cons.prems(1) by (auto simp: ids_below_def new_node_def)
  have pw': "\<And>w p. pw w = Some p \<Longrightarrow> has_node ?g5 p"
    and sw': "\<And>w s. sw w = Some s \<Longrightarrow> has_node ?g5 s"
    using Cons.prems(2,3) by (auto simp: has_node_def)
  note step
  also note Cons.IH [OF ids pw' sw']
  finally show ?case by simp
qed


lemma edge_eq_mk_edge:
  "e = mk_edge u v w \<longleftrightarrow> e_src e = u \<and> e_dst e = v \<and> e_wire e = Some w"
  by (cases e) (auto simp: mk_edge_def)

lemma mk_edge_sel [simp]:
  "e_src (mk_edge u v w) = u" "e_dst (mk_edge u v w) = v" "e_wire (mk_edge u v w) = Some w"
  by (simp_all add: mk_edge_def)

lemma set_first_occurrences [simp]: "set (first_occurrences xs) = set xs"
  by (simp add: first_occurrences_def)

lemma scan_data_Inr:
  "scan_data op ds m = Inr m' \<Longrightarrow>
   None \<notin> set ds \<and> m' = (\<lambda>w. if Some w \<in> set ds then Some op else m w)"
proof (induction ds arbitrary: m)
  case Nil
  then show ?case by simp
next
  case (Cons d ds)
  then show ?case by (cases d) (auto simp: fun_eq_iff)
qed

lemma scan_data_total: "None \<notin> set ds \<Longrightarrow> \<exists>m'. scan_data op ds m = Inr m'"
proof (induction ds arbitrary: m)
  case Nil
  then show ?case by simp
next
  case (Cons d ds)
  then show ?case by (cases d) auto
qed

lemma on_wire_total:
  "\<forall>(u, ds) \<in> set items. None \<notin> set ds \<Longrightarrow> \<exists>m'. on_wire items m = Inr m'"
proof (induction items arbitrary: m)
  case Nil
  then show ?case by simp
next
  case (Cons item items)
  obtain u ds where item: "item = (u, ds)" by (cases item)
  with Cons.prems obtain m1 where "scan_data u ds m = Inr m1"
    using scan_data_total [of ds u m] by auto
  with Cons item show ?case by auto
qed

lemma on_wire_Some:
  "on_wire items m = Inr m' \<Longrightarrow> m' w = Some u \<Longrightarrow>
   m w = Some u \<or> (\<exists>ds. (u, ds) \<in> set items \<and> Some w \<in> set ds)"
proof (induction items arbitrary: m)
  case Nil
  then show ?case by simp
next
  case (Cons item items)
  obtain v ds where item: "item = (v, ds)" by (cases item)
  from Cons.prems(1) item obtain m1 where m1: "scan_data v ds m = Inr m1"
    and rest: "on_wire items m1 = Inr m'"
    by (auto split: sum.splits)
  from Cons.IH [OF rest Cons.prems(2)] scan_data_Inr [OF m1] item show ?case
    by (auto split: if_splits)
qed

lemma on_wire_None:
  "on_wire items m = Inr m' \<Longrightarrow> m' w = None \<Longrightarrow>
   m w = None \<and> (\<forall>(u, ds) \<in> set items. Some w \<notin> set ds)"
proof (induction items arbitrary: m)
  case Nil
  then show ?case by simp
next
  case (Cons item items)
  obtain v ds where item: "item = (v, ds)" by (cases item)
  from Cons.prems(1) item obtain m1 where m1: "scan_data v ds m = Inr m1"
    and rest: "on_wire items m1 = Inr m'"
    by (auto split: sum.splits)
  from Cons.IH [OF rest Cons.prems(2)] scan_data_Inr [OF m1] item show ?case
    by (auto split: if_splits)
qed

lemma mk_edge_in_set:
  "mk_edge u v w \<in> set es \<longleftrightarrow>
   (\<exists>e \<in> set es. e_src e = u \<and> e_dst e = v \<and> e_wire e = Some w)"
  by (metis edge_eq_mk_edge)

lemma pred_items_edge:
  "(\<exists>ds. (u, ds) \<in> set (pred_items g v) \<and> Some w \<in> set ds) \<longleftrightarrow>
   mk_edge u v w \<in> set (g_edges g)"
proof
  assume "\<exists>ds. (u, ds) \<in> set (pred_items g v) \<and> Some w \<in> set ds"
  then show "mk_edge u v w \<in> set (g_edges g)"
    by (clarsimp simp: pred_items_def mk_edge_in_set) metis
next
  assume "mk_edge u v w \<in> set (g_edges g)"
  then obtain e where e: "e \<in> set (g_edges g)" "e_src e = u" "e_dst e = v" "e_wire e = Some w"
    by (auto simp: mk_edge_in_set)
  let ?ds = "map e_wire (filter (\<lambda>e. e_src e = u \<and> e_dst e = v) (g_edges g))"
  have "(u, ?ds) \<in> set (pred_items g v)"
    using e by (force simp: pred_items_def image_iff)
  moreover have "Some w \<in> set ?ds"
    using e by (force simp: image_iff)
  ultimately show "\<exists>ds. (u, ds) \<in> set (pred_items g v) \<and> Some w \<in> set ds"
    by blast
qed

lemma succ_items_edge:
  "(\<exists>ds. (u, ds) \<in> set (succ_items g v) \<and> Some w \<in> set ds) \<longleftrightarrow>
   mk_edge v u w \<in> set (g_edges g)"
proof
  assume "\<exists>ds. (u, ds) \<in> set (succ_items g v) \<and> Some w \<in> set ds"
  then show "mk_edge v u w \<in> set (g_edges g)"
    by (clarsimp simp: succ_items_def mk_edge_in_set) metis
next
  assume "mk_edge v u w \<in> set (g_edges g)"
  then obtain e where e: "e \<in> set (g_edges g)" "e_src e = v" "e_dst e = u" "e_wire e = Some w"
    by (auto simp: mk_edge_in_set)
  let ?ds = "map e_wire (filter (\<lambda>e. e_src e = v \<and> e_dst e = u) (g_edges g))"
  have "(u, ?ds) \<in> set (succ_items g v)"
    using e by (force simp: succ_items_def image_iff)
  moreover have "Some w \<in> set ?ds"
    using e by (force simp: image_iff)
  ultimately show "\<exists>ds. (u, ds) \<in> set (succ_items g v) \<and> Some w \<in> set ds"
    by blast
qed

lemma pred_scan_Some:
  "on_wire (pred_items g v) Map.empty = Inr pw \<Longrightarrow> pw w = Some p \<Longrightarrow>
   mk_edge p v w \<in> set (g_edges g)"
  using on_wire_Some [of "pred_items g v" Map.empty pw w p] pred_items_edge [of p g v w]
  by auto

lemma succ_scan_Some:
  "on_wire (succ_items g v) Map.empty = Inr sw \<Longrightarrow> sw w = Some s \<Longrightarrow>
   mk_edge v s w \<in> set (g_edges g)"
  using on_wire_Some [of "succ_items g v" Map.empty sw w s] succ_items_edge [of s g v w]
  by auto

lemma pred_scan_None:
  "on_wire (pred_items g v) Map.empty = Inr pw \<Longrightarrow> pw w = None \<Longrightarrow>
   mk_edge p v w \<notin> set (g_edges g)"
  using on_wire_None [of "pred_items g v" Map.empty pw w] pred_items_edge [of p g v w]
  by auto

lemma succ_scan_None:
  "on_wire (succ_items g v) Map.empty = Inr sw \<Longrightarrow> sw w = None \<Longrightarrow>
   mk_edge v s w \<notin> set (g_edges g)"
  using on_wire_None [of "succ_items g v" Map.empty sw w] succ_items_edge [of s g v w]
  by auto

lemma pred_scan_total:
  "attrs_ok g \<Longrightarrow> \<exists>pw. on_wire (pred_items g v) Map.empty = Inr pw"
  by (rule on_wire_total) (auto simp: pred_items_def attrs_ok_def)

lemma succ_scan_total:
  "attrs_ok g \<Longrightarrow> \<exists>sw. on_wire (succ_items g v) Map.empty = Inr sw"
  by (rule on_wire_total) (auto simp: succ_items_def attrs_ok_def)

lemma find_SomeD: "find P xs = Some x \<Longrightarrow> x \<in> set xs \<and> P x"
  by (induction xs) (auto split: if_splits)

lemma wire_pred_Some:
  "wire_pred g v w = Some p \<Longrightarrow> mk_edge p v w \<in> set (g_edges g)"
  unfolding wire_pred_def mk_edge_in_set by (auto dest: find_SomeD)

lemma wire_pred_None:
  "wire_pred g v w = None \<Longrightarrow> mk_edge p v w \<notin> set (g_edges g)"
  unfolding wire_pred_def mk_edge_in_set by (auto simp: find_None_iff)

lemma wire_succ_Some:
  "wire_succ g v w = Some s \<Longrightarrow> mk_edge v s w \<in> set (g_edges g)"
  unfolding wire_succ_def mk_edge_in_set by (auto dest: find_SomeD)

lemma wire_succ_None:
  "wire_succ g v w = None \<Longrightarrow> mk_edge v s w \<notin> set (g_edges g)"
  unfolding wire_succ_def mk_edge_in_set by (auto simp: find_None_iff)

lemma no_branching_pred:
  "no_branching g \<Longrightarrow> mk_edge p v w \<in> set (g_edges g) \<Longrightarrow>
   mk_edge q v w \<in> set (g_edges g) \<Longrightarrow> p = q"
  unfolding no_branching_def by (metis mk_edge_sel)

lemma no_branching_succ:
  "no_branching g \<Longrightarrow> mk_edge v p w \<in> set (g_edges g) \<Longrightarrow>
   mk_edge v q w \<in> set (g_edges g) \<Longrightarrow> p = q"
  unfolding no_branching_def by (metis mk_edge_sel)

lemma pred_scan_chain:
  assumes "attrs_ok g" "no_branching g"
  shows "on_wire (pred_items g v) Map.empty = Inr (wire_pred g v)"
proof -
  from pred_scan_total [OF assms(1)] obtain pw
    where pw: "on_wire (pred_items g v) Map.empty = Inr pw" by blast
  have "pw w = wire_pred g v w" for w
  proof (cases "pw w")
    case None
    then show ?thesis
      using pred_scan_None [OF pw None] wire_pred_Some [of g v w]
      by (cases "wire_pred g v w") auto
  next
    case (Some p)
    then show ?thesis
      using pred_scan_Some [OF pw Some] wire_pred_Some [of g v w] wire_pred_None [of g v w p]
        no_branching_pred [OF assms(2)]
      by (cases "wire_pred g v w") auto
  qed
  with pw show ?thesis by (simp add: fun_eq_iff)
qed

lemma succ_scan_chain:
  assumes "attrs_ok g" "no_branching g"
  shows "on_wire (succ_items g v) Map.empty = Inr (wire_succ g v)"
proof -
  from succ_scan_total [OF assms(1)] obtain sw
    where sw: "on_wire (succ_items g v) Map.empty = Inr sw" by blast
  have "sw w = wire_succ g v w" for w
  proof (cases "sw w")
    case None
    then show ?thesis
      using succ_scan_None [OF sw None] wire_succ_Some [of g v w]
      by (cases "wire_succ g v w") auto
  next
    case (Some p)
    then show ?thesis
      using succ_scan_Some [OF sw Some] wire_succ_Some [of g v w] wire_succ_None [of g v w p]
        no_branching_succ [OF assms(2)]
      by (cases "wire_succ g v w") auto
  qed
  with sw show ?thesis by (simp add: fun_eq_iff)
qed


lemma graph_ok_edge:
  "graph_ok g \<Longrightarrow> mk_edge u v w \<in> set (g_edges g) \<Longrightarrow> has_node g u \<and> has_node g v"
  unfolding graph_ok_def by (metis mk_edge_sel(1,2))

lemma no_self_loops_edge:
  "no_self_loops g \<Longrightarrow> mk_edge u v w \<in> set (g_edges g) \<Longrightarrow> u \<noteq> v"
  unfolding no_self_loops_def by (metis mk_edge_sel(1,2))

lemma has_node_removed:
  "has_node \<lparr>g_nodes = filter (\<lambda>(y, a). y \<noteq> x) (g_nodes g), g_edges = es\<rparr> y \<longleftrightarrow>
   has_node g y \<and> y \<noteq> x"
  by (force simp: has_node_def image_iff)

lemma ids_below_removed:
  "ids_below n g \<Longrightarrow> ids_below n \<lparr>g_nodes = filter (\<lambda>(y, a). y \<noteq> x) (g_nodes g), g_edges = es\<rparr>"
  by (auto simp: ids_below_def)

lemma replace_eq:
  assumes ok: "graph_ok g" and ids: "ids_below n g" and loops: "no_self_loops g"
    and x: "has_node g x"
    and pw: "on_wire (pred_items g x) Map.empty = Inr pw"
    and sw: "on_wire (succ_items g x) Map.empty = Inr sw"
    and ord: "node_order g x = Some order"
  shows "replace_wire_cut_node x (g, n) =
    Inr (rewired g x n order pw sw, n + 2 * length (wires x))"
proof -
  let ?g0 = "\<lparr>g_nodes = filter (\<lambda>(y, a). y \<noteq> x) (g_nodes g),
      g_edges = filter (\<lambda>e. e_src e \<noteq> x \<and> e_dst e \<noteq> x) (g_edges g)\<rparr>"
  have rm: "remove_node g x = Inr ?g0"
    using x by (simp add: remove_node_def)
  have ids0: "ids_below n ?g0"
    using ids by (rule ids_below_removed)
  have pw0: "has_node ?g0 p" if "pw w = Some p" for w p
  proof -
    from pred_scan_Some [OF pw that] have e: "mk_edge p x w \<in> set (g_edges g)" .
    from graph_ok_edge [OF ok e] no_self_loops_edge [OF loops e] show ?thesis
      unfolding has_node_removed by blast
  qed
  have sw0: "has_node ?g0 s" if "sw w = Some s" for w s
  proof -
    from succ_scan_Some [OF sw that] have e: "mk_edge x s w \<in> set (g_edges g)" .
    from graph_ok_edge [OF ok e] no_self_loops_edge [OF loops e] show ?thesis
      unfolding has_node_removed by blast
  qed
  have "cut_wires pw sw order (wires x) (?g0, n) =
      (rewired g x n order pw sw, n + 2 * length (wires x))"
    using cut_wires_eq [OF ids0 pw0 sw0, where order = order and ws = "wires x"]
    by (simp add: rewired_def)
  then show ?thesis
    using x pw sw ord rm by (simp add: replace_wire_cut_node_def)
qed

lemma node_order_present:
  "attrs_ok g \<Longrightarrow> has_node g x \<Longrightarrow> \<exists>a. node_order g x = Some a"
proof -
  assume a: "attrs_ok g" and x: "has_node g x"
  from x have "map_of (g_nodes g) x \<noteq> None"
    by (simp add: has_node_def map_of_eq_None_iff)
  then obtain b where b: "map_of (g_nodes g) x = Some b" by blast
  then have "(x, b) \<in> set (g_nodes g)" by (rule map_of_SomeD)
  with a have "b \<noteq> None" by (auto simp: attrs_ok_def)
  with b show ?thesis by (auto simp: node_order_def)
qed

lemma replace_chain:
  assumes "graph_ok g" "attrs_ok g" "ids_below n g" "chain_invariant g" "has_node g x"
  shows "\<exists>order. node_order g x = Some order \<and>
    replace_wire_cut_node x (g, n) =
      Inr (rewired g x n order (wire_pred g x) (wire_succ g x), n + 2 * length (wires x))"
proof -
  from node_order_present [OF assms(2,5)] obtain order
    where ord: "node_order g x = Some order" ..
  from assms(4) have loops: "no_self_loops g" and chain: "no_branching g"
    by (simp_all add: chain_invariant_def)
  have "replace_wire_cut_node x (g, n) =
      Inr (rewired g x n order (wire_pred g x) (wire_succ g x), n + 2 * length (wires x))"
    by (rule replace_eq [OF assms(1,3) loops assms(5)
          pred_scan_chain [OF assms(2) chain] succ_scan_chain [OF assms(2) chain] ord])
  with ord show ?thesis by blast
qed


lemma cut_nodes_length: "length (cut_nodes n order ws) = 2 * length ws"
  by (induction ws arbitrary: n) simp_all

lemma cut_nodes_mem:
  "(y, a) \<in> set (cut_nodes n order ws) \<Longrightarrow>
   n \<le> nid y \<and> nid y < n + 2 * length ws \<and> a = Some order \<and>
   (kind y = MeasureNode \<or> kind y = PrepareNode)"
proof (induction ws arbitrary: n)
  case Nil
  then show ?case by simp
next
  case (Cons w ws)
  from Cons.prems consider "y = new_node MeasureNode n w" "a = Some order"
    | "y = new_node PrepareNode (Suc n) w" "a = Some order"
    | "(y, a) \<in> set (cut_nodes (n + 2) order ws)"
    by auto
  then show ?case
  proof cases
    case 1
    then show ?thesis by (simp add: new_node_def)
  next
    case 2
    then show ?thesis by (simp add: new_node_def)
  next
    case 3
    from Cons.IH [OF 3] show ?thesis by simp
  qed
qed

lemma cut_nodes_keys:
  "y \<in> fst ` set (cut_nodes n order ws) \<Longrightarrow> n \<le> nid y \<and> nid y < n + 2 * length ws"
  using cut_nodes_mem by fastforce

lemma cut_nodes_distinct: "distinct (map fst (cut_nodes n order ws))"
proof (induction ws arbitrary: n)
  case Nil
  then show ?case by simp
next
  case (Cons w ws)
  have "new_node MeasureNode n w \<notin> fst ` set (cut_nodes (n + 2) order ws)"
    using cut_nodes_keys [of "new_node MeasureNode n w" "n + 2" order ws]
    by (auto simp: new_node_def)
  moreover have "new_node PrepareNode (Suc n) w \<notin> fst ` set (cut_nodes (n + 2) order ws)"
    using cut_nodes_keys [of "new_node PrepareNode (Suc n) w" "n + 2" order ws]
    by (auto simp: new_node_def)
  ultimately show ?case
    using Cons.IH [of "n + 2"] by (simp add: new_node_def)
qed

lemma cut_nodes_nth:
  "i < length ws \<Longrightarrow>
   (new_node MeasureNode (n + 2 * i) (ws ! i), Some order) \<in> set (cut_nodes n order ws) \<and>
   (new_node PrepareNode (Suc (n + 2 * i)) (ws ! i), Some order) \<in> set (cut_nodes n order ws)"
proof (induction ws arbitrary: n i)
  case Nil
  then show ?case by simp
next
  case (Cons w ws)
  show ?case
  proof (cases i)
    case 0
    then show ?thesis by simp
  next
    case (Suc j)
    with Cons.prems have "j < length ws" by simp
    from Cons.IH [OF this, of "n + 2"] Suc show ?thesis by simp
  qed
qed

lemma cut_edges_nth:
  "i < length ws \<Longrightarrow>
   mk_edge (new_node MeasureNode (n + 2 * i) (ws ! i))
     (new_node PrepareNode (Suc (n + 2 * i)) (ws ! i)) (ws ! i) \<in> set (cut_edges pw sw n ws)"
proof (induction ws arbitrary: n i)
  case Nil
  then show ?case by simp
next
  case (Cons w ws)
  show ?case
  proof (cases i)
    case 0
    then show ?thesis by simp
  next
    case (Suc j)
    with Cons.prems have "j < length ws" by simp
    from Cons.IH [OF this, of "n + 2"] Suc show ?thesis by simp
  qed
qed

text \<open>Every new edge joins a new pair, or a new node and a recorded neighbour.\<close>

lemma cut_edges_mem:
  "e \<in> set (cut_edges pw sw n ws) \<Longrightarrow>
   \<exists>k w. n \<le> k \<and> Suc k < n + 2 * length ws \<and> w \<in> set ws \<and>
     (e = mk_edge (new_node MeasureNode k w) (new_node PrepareNode (Suc k) w) w \<or>
      (\<exists>q. pw w = Some q \<and> e = mk_edge q (new_node MeasureNode k w) w) \<or>
      (\<exists>q. sw w = Some q \<and> e = mk_edge (new_node PrepareNode (Suc k) w) q w))"
proof (induction ws arbitrary: n)
  case Nil
  then show ?case by simp
next
  case (Cons w ws)
  from Cons.prems consider
      "e = mk_edge (new_node MeasureNode n w) (new_node PrepareNode (Suc n) w) w"
    | q where "pw w = Some q" "e = mk_edge q (new_node MeasureNode n w) w"
    | q where "sw w = Some q" "e = mk_edge (new_node PrepareNode (Suc n) w) q w"
    | "e \<in> set (cut_edges pw sw (n + 2) ws)"
    by (cases "pw w"; cases "sw w"; auto)
  then show ?case
  proof cases
    case 1
    then show ?thesis by (intro exI [of _ n] exI [of _ w]) simp
  next
    case 2
    then show ?thesis by (intro exI [of _ n] exI [of _ w]) simp
  next
    case 3
    then show ?thesis by (intro exI [of _ n] exI [of _ w]) simp
  next
    case 4
    from Cons.IH [OF 4] obtain k w' where
      "n + 2 \<le> k" "Suc k < n + 2 + 2 * length ws" "w' \<in> set ws"
      "e = mk_edge (new_node MeasureNode k w') (new_node PrepareNode (Suc k) w') w' \<or>
       (\<exists>q. pw w' = Some q \<and> e = mk_edge q (new_node MeasureNode k w') w') \<or>
       (\<exists>q. sw w' = Some q \<and> e = mk_edge (new_node PrepareNode (Suc k) w') q w')"
      by blast
    then show ?thesis by (intro exI [of _ k] exI [of _ w']) simp
  qed
qed


lemma cut_edges_dst_nid:
  assumes "e \<in> set (cut_edges pw sw n ws)" and "\<forall>w q. sw w = Some q \<longrightarrow> nid q < n0"
  shows "nid (e_dst e) < n0 \<or> n \<le> nid (e_dst e)"
proof -
  from cut_edges_mem [OF assms(1)] obtain k w where "n \<le> k"
    and "e = mk_edge (new_node MeasureNode k w) (new_node PrepareNode (Suc k) w) w \<or>
       (\<exists>q. pw w = Some q \<and> e = mk_edge q (new_node MeasureNode k w) w) \<or>
       (\<exists>q. sw w = Some q \<and> e = mk_edge (new_node PrepareNode (Suc k) w) q w)"
    by blast
  then show ?thesis
    using assms(2) by (auto simp: new_node_def)
qed

lemma cut_edges_src_nid:
  assumes "e \<in> set (cut_edges pw sw n ws)" and "\<forall>w q. pw w = Some q \<longrightarrow> nid q < n0"
  shows "nid (e_src e) < n0 \<or> n \<le> nid (e_src e)"
proof -
  from cut_edges_mem [OF assms(1)] obtain k w where "n \<le> k"
    and "e = mk_edge (new_node MeasureNode k w) (new_node PrepareNode (Suc k) w) w \<or>
       (\<exists>q. pw w = Some q \<and> e = mk_edge q (new_node MeasureNode k w) w) \<or>
       (\<exists>q. sw w = Some q \<and> e = mk_edge (new_node PrepareNode (Suc k) w) q w)"
    by blast
  then show ?thesis
    using assms(2) by (auto simp: new_node_def)
qed

lemma cut_edges_no_dst:
  assumes "\<forall>w q. sw w = Some q \<longrightarrow> nid q < n0" and "n0 \<le> nid y" and "nid y < n"
  shows "filter (\<lambda>e. e_dst e = y) (cut_edges pw sw n ws) = []"
  unfolding filter_empty_conv
proof (intro ballI notI)
  fix e assume "e \<in> set (cut_edges pw sw n ws)" "e_dst e = y"
  with cut_edges_dst_nid [OF _ assms(1), of e pw n ws] assms(2,3) show False by auto
qed

lemma cut_edges_no_src:
  assumes "\<forall>w q. pw w = Some q \<longrightarrow> nid q < n0" and "n0 \<le> nid y" and "nid y < n"
  shows "filter (\<lambda>e. e_src e = y) (cut_edges pw sw n ws) = []"
  unfolding filter_empty_conv
proof (intro ballI notI)
  fix e assume "e \<in> set (cut_edges pw sw n ws)" "e_src e = y"
  with cut_edges_src_nid [OF _ assms(1), of e sw n ws] assms(2,3) show False by auto
qed

lemma cut_edges_into_meas:
  assumes "\<forall>w q. sw w = Some q \<longrightarrow> nid q < n0" and "n0 \<le> n" and "i < length ws"
  shows "filter (\<lambda>e. e_dst e = new_node MeasureNode (n + 2 * i) (ws ! i)) (cut_edges pw sw n ws) =
    (case pw (ws ! i) of
       None \<Rightarrow> []
     | Some p \<Rightarrow> [mk_edge p (new_node MeasureNode (n + 2 * i) (ws ! i)) (ws ! i)])"
  using assms(2,3)
proof (induction ws arbitrary: n i)
  case Nil
  then show ?case by simp
next
  case (Cons w ws)
  show ?case
  proof (cases i)
    case 0
    have tail: "filter (\<lambda>e. e_dst e = new_node MeasureNode n w) (cut_edges pw sw (n + 2) ws) = []"
      using Cons.prems(1) by (intro cut_edges_no_dst [OF assms(1)]) (simp_all add: new_node_def)
    have old: "q \<noteq> new_node MeasureNode n w" if "sw w = Some q" for q
    proof -
      from assms(1) that have "nid q < n0" by blast
      with Cons.prems(1) show ?thesis by (auto simp: new_node_def)
    qed
    show ?thesis
      using 0 tail old by (cases "pw w"; cases "sw w") (simp_all add: new_node_def)
  next
    case (Suc j)
    let ?y = "new_node MeasureNode (n + 2 + 2 * j) (ws ! j)"
    from Suc Cons.prems have j: "j < length ws" and n2: "n0 \<le> n + 2" by simp_all
    have old: "q \<noteq> ?y" if "sw w = Some q" for q
    proof -
      from assms(1) that have "nid q < n0" by blast
      with Cons.prems(1) show ?thesis by (auto simp: new_node_def)
    qed
    have step: "filter (\<lambda>e. e_dst e = ?y) (cut_edges pw sw n (w # ws)) =
        filter (\<lambda>e. e_dst e = ?y) (cut_edges pw sw (n + 2) ws)"
      using old by (cases "pw w"; cases "sw w") (simp_all add: new_node_def)
    have eq: "n + 2 * i = n + 2 + 2 * j" "(w # ws) ! i = ws ! j"
      using Suc by simp_all
    show ?thesis
      unfolding eq using step Cons.IH [OF n2 j] by (rule trans)
  qed
qed

lemma cut_edges_from_prep:
  assumes "\<forall>w q. pw w = Some q \<longrightarrow> nid q < n0" and "n0 \<le> n" and "i < length ws"
  shows "filter (\<lambda>e. e_src e = new_node PrepareNode (Suc (n + 2 * i)) (ws ! i))
      (cut_edges pw sw n ws) =
    (case sw (ws ! i) of
       None \<Rightarrow> []
     | Some s \<Rightarrow> [mk_edge (new_node PrepareNode (Suc (n + 2 * i)) (ws ! i)) s (ws ! i)])"
  using assms(2,3)
proof (induction ws arbitrary: n i)
  case Nil
  then show ?case by simp
next
  case (Cons w ws)
  show ?case
  proof (cases i)
    case 0
    have tail: "filter (\<lambda>e. e_src e = new_node PrepareNode (Suc n) w)
        (cut_edges pw sw (n + 2) ws) = []"
      using Cons.prems(1) by (intro cut_edges_no_src [OF assms(1)]) (simp_all add: new_node_def)
    have old: "q \<noteq> new_node PrepareNode (Suc n) w" if "pw w = Some q" for q
    proof -
      from assms(1) that have "nid q < n0" by blast
      with Cons.prems(1) show ?thesis by (auto simp: new_node_def)
    qed
    show ?thesis
      using 0 tail old by (cases "pw w"; cases "sw w") (simp_all add: new_node_def)
  next
    case (Suc j)
    let ?y = "new_node PrepareNode (Suc (n + 2 + 2 * j)) (ws ! j)"
    from Suc Cons.prems have j: "j < length ws" and n2: "n0 \<le> n + 2" by simp_all
    have old: "q \<noteq> ?y" if "pw w = Some q" for q
    proof -
      from assms(1) that have "nid q < n0" by blast
      with Cons.prems(1) show ?thesis by (auto simp: new_node_def)
    qed
    have step: "filter (\<lambda>e. e_src e = ?y) (cut_edges pw sw n (w # ws)) =
        filter (\<lambda>e. e_src e = ?y) (cut_edges pw sw (n + 2) ws)"
      using old by (cases "pw w"; cases "sw w") (simp_all add: new_node_def)
    have eq: "n + 2 * i = n + 2 + 2 * j" "(w # ws) ! i = ws ! j"
      using Suc by simp_all
    show ?thesis
      unfolding eq using step Cons.IH [OF n2 j] by (rule trans)
  qed
qed


lemma graph_ok_dst: "graph_ok g \<Longrightarrow> e \<in> set (g_edges g) \<Longrightarrow> has_node g (e_dst e)"
  by (simp add: graph_ok_def)

lemma graph_ok_src: "graph_ok g \<Longrightarrow> e \<in> set (g_edges g) \<Longrightarrow> has_node g (e_src e)"
  by (simp add: graph_ok_def)

lemma ids_below_nid: "ids_below n g \<Longrightarrow> has_node g y \<Longrightarrow> nid y < n"
  by (auto simp: ids_below_def has_node_def)

lemma has_node_rewired:
  "has_node (rewired g x n order pw sw) y \<longleftrightarrow>
   (has_node g y \<and> y \<noteq> x) \<or> y \<in> fst ` set (cut_nodes n order (wires x))"
  by (force simp: rewired_def has_node_def image_iff)

lemma g_edges_rewired:
  "g_edges (rewired g x n order pw sw) =
   filter (\<lambda>e. e_src e \<noteq> x \<and> e_dst e \<noteq> x) (g_edges g) @ cut_edges pw sw n (wires x)"
  by (simp add: rewired_def)

lemma g_nodes_rewired:
  "g_nodes (rewired g x n order pw sw) =
   filter (\<lambda>(y, a). y \<noteq> x) (g_nodes g) @ cut_nodes n order (wires x)"
  by (simp add: rewired_def)

lemma old_edges_no_dst:
  assumes "graph_ok g" "ids_below n g" "n \<le> nid y"
  shows "filter (\<lambda>e. e_dst e = y) (filter P (g_edges g)) = []"
  unfolding filter_empty_conv
  using assms graph_ok_dst ids_below_nid by fastforce

lemma old_edges_no_src:
  assumes "graph_ok g" "ids_below n g" "n \<le> nid y"
  shows "filter (\<lambda>e. e_src e = y) (filter P (g_edges g)) = []"
  unfolding filter_empty_conv
  using assms graph_ok_src ids_below_nid by fastforce

lemma wire_pred_old:
  "graph_ok g \<Longrightarrow> ids_below n g \<Longrightarrow> wire_pred g x w = Some q \<Longrightarrow> nid q < n"
  using wire_pred_Some graph_ok_edge ids_below_nid by metis

lemma wire_succ_old:
  "graph_ok g \<Longrightarrow> ids_below n g \<Longrightarrow> wire_succ g x w = Some q \<Longrightarrow> nid q < n"
  using wire_succ_Some graph_ok_edge ids_below_nid by metis

text \<open>
  Claim C2. In a graph with the chain invariant, for a node of the graph and a wire \<open>w\<close>
  it touches, \<^verbatim>\<open>replace_wire_cut_node\<close> returns, and the new graph has a
  \<^verbatim>\<open>MeasureNode\<close> and a \<^verbatim>\<open>PrepareNode\<close> on \<open>w\<close> that were not in the graph
  before, joined by an edge from the first to the second with wire \<open>w\<close>. The only edge into
  the \<^verbatim>\<open>MeasureNode\<close> comes from the predecessor that the replaced node had on \<open>w\<close>, with
  wire \<open>w\<close>, and there is none when it had no predecessor; the only edge out of the
  \<^verbatim>\<open>PrepareNode\<close> goes to the successor that the replaced node had on \<open>w\<close>, and there
  is none when it had no successor. The replaced node is no longer in the graph.
\<close>

theorem replace_makes_pair:
  assumes ok: "graph_ok g" and attrs: "attrs_ok g" and ids: "ids_below n g"
    and chain: "chain_invariant g" and x: "has_node g x" and w: "w \<in> set (wires x)"
  shows "\<exists>g' n' meas prep.
    replace_wire_cut_node x (g, n) = Inr (g', n') \<and>
    kind meas = MeasureNode \<and> kind prep = PrepareNode \<and>
    wires meas = [w] \<and> wires prep = [w] \<and>
    \<not> has_node g meas \<and> \<not> has_node g prep \<and>
    has_node g' meas \<and> has_node g' prep \<and>
    mk_edge meas prep w \<in> set (g_edges g') \<and>
    filter (\<lambda>e. e_dst e = meas) (g_edges g') =
      (case wire_pred g x w of None \<Rightarrow> [] | Some p \<Rightarrow> [mk_edge p meas w]) \<and>
    filter (\<lambda>e. e_src e = prep) (g_edges g') =
      (case wire_succ g x w of None \<Rightarrow> [] | Some s \<Rightarrow> [mk_edge prep s w]) \<and>
    \<not> has_node g' x"
proof -
  from replace_chain [OF ok attrs ids chain x] obtain order where
    run: "replace_wire_cut_node x (g, n) =
      Inr (rewired g x n order (wire_pred g x) (wire_succ g x), n + 2 * length (wires x))"
    by blast
  let ?g' = "rewired g x n order (wire_pred g x) (wire_succ g x)"
  from w obtain i where i: "i < length (wires x)" and wi: "wires x ! i = w"
    by (auto simp: in_set_conv_nth)
  let ?meas = "new_node MeasureNode (n + 2 * i) w"
  let ?prep = "new_node PrepareNode (Suc (n + 2 * i)) w"
  have pw_old: "\<forall>w q. wire_pred g x w = Some q \<longrightarrow> nid q < n"
    using wire_pred_old [OF ok ids] by blast
  have sw_old: "\<forall>w q. wire_succ g x w = Some q \<longrightarrow> nid q < n"
    using wire_succ_old [OF ok ids] by blast
  have fresh_m: "\<not> has_node g ?meas"
    by (rule ids_below_fresh [OF ids]) (simp add: new_node_def)
  have fresh_p: "\<not> has_node g ?prep"
    by (rule ids_below_fresh [OF ids]) (simp add: new_node_def)
  from cut_nodes_nth [OF i, of n order] wi
  have in_m: "has_node ?g' ?meas" and in_p: "has_node ?g' ?prep"
    unfolding has_node_rewired by (force simp: image_iff)+
  have edge: "mk_edge ?meas ?prep w \<in> set (g_edges ?g')"
    using cut_edges_nth [OF i, of n "wire_pred g x" "wire_succ g x"] wi
    by (simp add: g_edges_rewired)
  have into: "filter (\<lambda>e. e_dst e = ?meas) (g_edges ?g') =
      (case wire_pred g x w of None \<Rightarrow> [] | Some p \<Rightarrow> [mk_edge p ?meas w])"
  proof -
    have old: "filter (\<lambda>e. e_dst e = ?meas)
        (filter (\<lambda>e. e_src e \<noteq> x \<and> e_dst e \<noteq> x) (g_edges g)) = []"
      by (rule old_edges_no_dst [OF ok ids]) (simp add: new_node_def)
    have new: "filter (\<lambda>e. e_dst e = ?meas)
        (cut_edges (wire_pred g x) (wire_succ g x) n (wires x)) =
        (case wire_pred g x w of None \<Rightarrow> [] | Some p \<Rightarrow> [mk_edge p ?meas w])"
      using cut_edges_into_meas [OF sw_old order_refl i, of "wire_pred g x"]
      unfolding wi .
    show ?thesis
      unfolding g_edges_rewired filter_append old new by simp
  qed
  have from_p: "filter (\<lambda>e. e_src e = ?prep) (g_edges ?g') =
      (case wire_succ g x w of None \<Rightarrow> [] | Some s \<Rightarrow> [mk_edge ?prep s w])"
  proof -
    have old: "filter (\<lambda>e. e_src e = ?prep)
        (filter (\<lambda>e. e_src e \<noteq> x \<and> e_dst e \<noteq> x) (g_edges g)) = []"
      by (rule old_edges_no_src [OF ok ids]) (simp add: new_node_def)
    have new: "filter (\<lambda>e. e_src e = ?prep)
        (cut_edges (wire_pred g x) (wire_succ g x) n (wires x)) =
        (case wire_succ g x w of None \<Rightarrow> [] | Some s \<Rightarrow> [mk_edge ?prep s w])"
      using cut_edges_from_prep [OF pw_old order_refl i, of "wire_succ g x"]
      unfolding wi .
    show ?thesis
      unfolding g_edges_rewired filter_append old new by simp
  qed
  have gone: "\<not> has_node ?g' x"
    using cut_nodes_keys [of x n order "wires x"] ids_below_nid [OF ids x]
    by (auto simp: has_node_rewired)
  have kinds: "kind ?meas = MeasureNode" "kind ?prep = PrepareNode"
    "wires ?meas = [w]" "wires ?prep = [w]"
    by (simp_all add: new_node_def)
  from run kinds fresh_m fresh_p in_m in_p edge into from_p gone show ?thesis
    by blast
qed

lemmas ex_defs = ex_graph_def ex_A_def ex_B_def ex_cut_def ex_P_def ex_Q_def term_node_def
  mk_edge_def

lemma ex_graph_ok: "graph_ok ex_graph"
  by (simp add: graph_ok_def has_node_def ex_defs)

lemma ex_attrs_ok: "attrs_ok ex_graph"
  by (simp add: attrs_ok_def ex_defs)

lemma ex_ids_below: "ids_below 7 ex_graph"
  by (simp add: ids_below_def ex_defs)

lemma ex_chain: "chain_invariant ex_graph"
  by (simp add: chain_invariant_def no_self_loops_def no_branching_def ex_defs)

lemma ex_has_cut: "has_node ex_graph ex_cut"
  by (simp add: has_node_def ex_defs)

lemma ex_built: "tape_to_graph ex_tape 5 = Inr (ex_graph, 7)"
  by (simp add: tape_to_graph_def ex_tape_def ex_defs MultiDiGraph_def add_operator_node_def
      add_node_def add_edge_def touch_node_def has_node_def tensor_terms_def)

lemma ex_wf: "wf_tape ex_tape 5"
  by (simp add: wf_tape_def ex_tape_def ex_defs tensor_terms_def)

theorem replace_makes_pair_witness:
  "\<exists>g' n' meas prep.
    replace_wire_cut_node ex_cut (ex_graph, 7) = Inr (g', n') \<and>
    kind meas = MeasureNode \<and> kind prep = PrepareNode \<and>
    wires meas = [0] \<and> wires prep = [0] \<and>
    \<not> has_node ex_graph meas \<and> \<not> has_node ex_graph prep \<and>
    has_node g' meas \<and> has_node g' prep \<and>
    mk_edge meas prep 0 \<in> set (g_edges g') \<and>
    filter (\<lambda>e. e_dst e = meas) (g_edges g') = [mk_edge ex_A meas 0] \<and>
    filter (\<lambda>e. e_src e = prep) (g_edges g') = [mk_edge prep (term_node 5 [0]) 0] \<and>
    \<not> has_node g' ex_cut"
proof -
  have w: "(0::nat) \<in> set (wires ex_cut)" by (simp add: ex_cut_def)
  have p: "wire_pred ex_graph ex_cut 0 = Some ex_A"
    by (simp add: wire_pred_def ex_defs)
  have s: "wire_succ ex_graph ex_cut 0 = Some (term_node 5 [0])"
    by (simp add: wire_succ_def ex_defs)
  show ?thesis
    using replace_makes_pair [OF ex_graph_ok ex_attrs_ok ex_ids_below ex_chain ex_has_cut w]
    unfolding p s by simp
qed

section \<open>Counting what a replacement removes and adds\<close>

lemma cut_edges_wires:
  "e \<in> set (cut_edges pw sw n ws) \<Longrightarrow> \<exists>w \<in> set ws. e_wire e = Some w"
  using cut_edges_mem [of e pw sw n ws] by auto

lemma cut_edges_wire_none:
  "w \<notin> set ws \<Longrightarrow> filter (\<lambda>e. e_wire e = Some w) (cut_edges pw sw n ws) = []"
  unfolding filter_empty_conv using cut_edges_wires [of _ pw sw n ws] by fastforce

lemma cut_edges_wire:
  "distinct ws \<Longrightarrow> i < length ws \<Longrightarrow>
   filter (\<lambda>e. e_wire e = Some (ws ! i)) (cut_edges pw sw n ws) =
     mk_edge (new_node MeasureNode (n + 2 * i) (ws ! i))
       (new_node PrepareNode (Suc (n + 2 * i)) (ws ! i)) (ws ! i) #
     (case pw (ws ! i) of
        None \<Rightarrow> []
      | Some p \<Rightarrow> [mk_edge p (new_node MeasureNode (n + 2 * i) (ws ! i)) (ws ! i)]) @
     (case sw (ws ! i) of
        None \<Rightarrow> []
      | Some s \<Rightarrow> [mk_edge (new_node PrepareNode (Suc (n + 2 * i)) (ws ! i)) s (ws ! i)])"
proof (induction ws arbitrary: n i)
  case Nil
  then show ?case by simp
next
  case (Cons w ws)
  show ?case
  proof (cases i)
    case 0
    from Cons.prems(1) have "w \<notin> set ws" by simp
    from cut_edges_wire_none [OF this, of pw sw "n + 2"] 0 show ?thesis
      by (cases "pw w"; cases "sw w") simp_all
  next
    case (Suc j)
    from Suc Cons.prems have j: "j < length ws" and d: "distinct ws" by simp_all
    from j Cons.prems(1) have ne: "w \<noteq> ws ! j" by auto
    have step: "filter (\<lambda>e. e_wire e = Some (ws ! j)) (cut_edges pw sw n (w # ws)) =
        filter (\<lambda>e. e_wire e = Some (ws ! j)) (cut_edges pw sw (n + 2) ws)"
      using ne by (cases "pw w"; cases "sw w") simp_all
    have eq: "n + 2 * i = n + 2 + 2 * j" "(w # ws) ! i = ws ! j"
      using Suc by simp_all
    show ?thesis
      unfolding eq using step Cons.IH [OF d j, of "n + 2"] by (rule trans)
  qed
qed

lemma length_filter_remove1:
  "distinct xs \<Longrightarrow> x \<in> set xs \<Longrightarrow> Suc (length (filter (\<lambda>y. y \<noteq> x) xs)) = length xs"
proof (induction xs)
  case Nil
  then show ?case by simp
next
  case (Cons a xs)
  show ?case
  proof (cases "a = x")
    case True
    with Cons.prems(1) have "filter (\<lambda>y. y \<noteq> x) xs = xs"
      by (auto simp: filter_id_conv)
    with True show ?thesis by simp
  next
    case False
    with Cons show ?thesis by simp
  qed
qed

lemma map_fst_removed:
  "map fst (filter (\<lambda>(y, a). y \<noteq> x) ns) = filter (\<lambda>y. y \<noteq> x) (map fst ns)"
  by (induction ns) auto

text \<open>
  Claim C3. In a graph with the chain invariant, replacing a node that touches \<open>k\<close> wires
  removes that one node and appends \<open>2k\<close> nodes that were not in the graph, so the number of
  nodes changes by \<open>2k - 1\<close>. The edges that do not touch the node stay, and the edges
  added for a touched wire \<open>w\<close> are exactly: one edge from the new \<^verbatim>\<open>MeasureNode\<close> to the
  new \<^verbatim>\<open>PrepareNode\<close>, then one edge from the predecessor to the \<^verbatim>\<open>MeasureNode\<close> if
  and only if the node had a predecessor on \<open>w\<close>, then one edge from the
  \<^verbatim>\<open>PrepareNode\<close> to the successor if and only if it had a successor on \<open>w\<close>. No edge
  is added on any other wire.
\<close>

theorem replace_counts:
  assumes ok: "graph_ok g" and attrs: "attrs_ok g" and ids: "ids_below n g"
    and chain: "chain_invariant g" and x: "has_node g x" and d: "distinct (wires x)"
  shows "\<exists>g' new added.
    replace_wire_cut_node x (g, n) = Inr (g', n + 2 * length (wires x)) \<and>
    map fst (g_nodes g') = filter (\<lambda>y. y \<noteq> x) (map fst (g_nodes g)) @ new \<and>
    Suc (length (filter (\<lambda>y. y \<noteq> x) (map fst (g_nodes g)))) = length (g_nodes g) \<and>
    length new = 2 * length (wires x) \<and> distinct new \<and>
    (\<forall>y \<in> set new. \<not> has_node g y) \<and>
    int (length (g_nodes g')) = int (length (g_nodes g)) + 2 * int (length (wires x)) - 1 \<and>
    g_edges g' = filter (\<lambda>e. e_src e \<noteq> x \<and> e_dst e \<noteq> x) (g_edges g) @ added \<and>
    (\<forall>w \<in> set (wires x). \<exists>meas prep.
       meas \<in> set new \<and> prep \<in> set new \<and> kind meas = MeasureNode \<and> kind prep = PrepareNode \<and>
       filter (\<lambda>e. e_wire e = Some w) added =
         mk_edge meas prep w #
         (case wire_pred g x w of None \<Rightarrow> [] | Some p \<Rightarrow> [mk_edge p meas w]) @
         (case wire_succ g x w of None \<Rightarrow> [] | Some s \<Rightarrow> [mk_edge prep s w])) \<and>
    (\<forall>e \<in> set added. \<exists>w \<in> set (wires x). e_wire e = Some w)"
proof -
  from replace_chain [OF ok attrs ids chain x] obtain order where
    run: "replace_wire_cut_node x (g, n) =
      Inr (rewired g x n order (wire_pred g x) (wire_succ g x), n + 2 * length (wires x))"
    by blast
  let ?g' = "rewired g x n order (wire_pred g x) (wire_succ g x)"
  let ?new = "map fst (cut_nodes n order (wires x))"
  let ?added = "cut_edges (wire_pred g x) (wire_succ g x) n (wires x)"
  have nodes: "map fst (g_nodes ?g') = filter (\<lambda>y. y \<noteq> x) (map fst (g_nodes g)) @ ?new"
    by (simp add: g_nodes_rewired map_fst_removed)
  have one: "Suc (length (filter (\<lambda>y. y \<noteq> x) (map fst (g_nodes g)))) = length (g_nodes g)"
    using length_filter_remove1 [of "map fst (g_nodes g)" x] ok x
    by (simp add: graph_ok_def has_node_def)
  have len: "length ?new = 2 * length (wires x)"
    by (simp add: cut_nodes_length)
  have dist: "distinct ?new"
    by (rule cut_nodes_distinct)
  have fresh: "\<forall>y \<in> set ?new. \<not> has_node g y"
  proof
    fix y assume "y \<in> set ?new"
    then have "n \<le> nid y" using cut_nodes_keys [of y n order "wires x"] by simp
    then show "\<not> has_node g y" by (rule ids_below_fresh [OF ids])
  qed
  have count: "int (length (g_nodes ?g')) =
      int (length (g_nodes g)) + 2 * int (length (wires x)) - 1"
  proof -
    have "length (g_nodes ?g') = length (map fst (g_nodes ?g'))" by simp
    also have "\<dots> = length (filter (\<lambda>y. y \<noteq> x) (map fst (g_nodes g))) + length ?new"
      unfolding nodes by simp
    finally show ?thesis using one len by simp
  qed
  have edges: "g_edges ?g' = filter (\<lambda>e. e_src e \<noteq> x \<and> e_dst e \<noteq> x) (g_edges g) @ ?added"
    by (rule g_edges_rewired)
  have per_wire: "\<forall>w \<in> set (wires x). \<exists>meas prep.
       meas \<in> set ?new \<and> prep \<in> set ?new \<and> kind meas = MeasureNode \<and> kind prep = PrepareNode \<and>
       filter (\<lambda>e. e_wire e = Some w) ?added =
         mk_edge meas prep w #
         (case wire_pred g x w of None \<Rightarrow> [] | Some p \<Rightarrow> [mk_edge p meas w]) @
         (case wire_succ g x w of None \<Rightarrow> [] | Some s \<Rightarrow> [mk_edge prep s w])"
  proof
    fix w assume "w \<in> set (wires x)"
    then obtain i where i: "i < length (wires x)" and wi: "wires x ! i = w"
      by (auto simp: in_set_conv_nth)
    let ?meas = "new_node MeasureNode (n + 2 * i) w"
    let ?prep = "new_node PrepareNode (Suc (n + 2 * i)) w"
    from cut_nodes_nth [OF i, of n order]
    have "?meas \<in> set ?new" "?prep \<in> set ?new"
      unfolding wi by (force simp: image_iff)+
    moreover have "kind ?meas = MeasureNode" "kind ?prep = PrepareNode"
      by (simp_all add: new_node_def)
    moreover have "filter (\<lambda>e. e_wire e = Some w) ?added =
         mk_edge ?meas ?prep w #
         (case wire_pred g x w of None \<Rightarrow> [] | Some p \<Rightarrow> [mk_edge p ?meas w]) @
         (case wire_succ g x w of None \<Rightarrow> [] | Some s \<Rightarrow> [mk_edge ?prep s w])"
      using cut_edges_wire [OF d i, of "wire_pred g x" "wire_succ g x" n]
      unfolding wi .
    ultimately show "\<exists>meas prep.
       meas \<in> set ?new \<and> prep \<in> set ?new \<and> kind meas = MeasureNode \<and> kind prep = PrepareNode \<and>
       filter (\<lambda>e. e_wire e = Some w) ?added =
         mk_edge meas prep w #
         (case wire_pred g x w of None \<Rightarrow> [] | Some p \<Rightarrow> [mk_edge p meas w]) @
         (case wire_succ g x w of None \<Rightarrow> [] | Some s \<Rightarrow> [mk_edge prep s w])"
      by blast
  qed
  have only: "\<forall>e \<in> set ?added. \<exists>w \<in> set (wires x). e_wire e = Some w"
    using cut_edges_wires by blast
  from run nodes one len dist fresh count edges per_wire only show ?thesis
    by blast
qed

theorem replace_counts_witness:
  "\<exists>g' new added.
    replace_wire_cut_node ex_cut (ex_graph, 7) = Inr (g', 11) \<and>
    map fst (g_nodes g') =
      [ex_A, ex_B, term_node 5 [0], term_node 6 [1], ex_Q] @ new \<and>
    length new = 4 \<and> distinct new \<and>
    int (length (g_nodes g')) = 9 \<and>
    g_edges g' = [mk_edge ex_B (term_node 6 [1]) 1, mk_edge (term_node 6 [1]) ex_Q 1] @ added \<and>
    (\<exists>meas prep.
       meas \<in> set new \<and> prep \<in> set new \<and> kind meas = MeasureNode \<and> kind prep = PrepareNode \<and>
       filter (\<lambda>e. e_wire e = Some 1) added = [mk_edge meas prep 1, mk_edge prep ex_B 1])"
proof -
  have d: "distinct (wires ex_cut)" by (simp add: ex_cut_def)
  have p: "wire_pred ex_graph ex_cut 1 = None"
    by (simp add: wire_pred_def ex_defs)
  have s: "wire_succ ex_graph ex_cut 1 = Some ex_B"
    by (simp add: wire_succ_def ex_defs)
  have w: "wires ex_cut = [0, 1]" by (simp add: ex_cut_def)
  have keys: "filter (\<lambda>y. y \<noteq> ex_cut) (map fst (g_nodes ex_graph)) =
      [ex_A, ex_B, term_node 5 [0], term_node 6 [1], ex_Q]"
    by (simp add: ex_defs)
  have kept: "filter (\<lambda>e. e_src e \<noteq> ex_cut \<and> e_dst e \<noteq> ex_cut) (g_edges ex_graph) =
      [mk_edge ex_B (term_node 6 [1]) 1, mk_edge (term_node 6 [1]) ex_Q 1]"
    by (simp add: ex_defs)
  have len: "length (g_nodes ex_graph) = 6" by (simp add: ex_graph_def)
  from replace_counts [OF ex_graph_ok ex_attrs_ok ex_ids_below ex_chain ex_has_cut d]
  obtain g' new added where
    run: "replace_wire_cut_node ex_cut (ex_graph, 7) = Inr (g', 7 + 2 * length (wires ex_cut))"
    and nodes: "map fst (g_nodes g') =
      filter (\<lambda>y. y \<noteq> ex_cut) (map fst (g_nodes ex_graph)) @ new"
    and new: "length new = 2 * length (wires ex_cut)" "distinct new"
    and count: "int (length (g_nodes g')) =
      int (length (g_nodes ex_graph)) + 2 * int (length (wires ex_cut)) - 1"
    and edges: "g_edges g' =
      filter (\<lambda>e. e_src e \<noteq> ex_cut \<and> e_dst e \<noteq> ex_cut) (g_edges ex_graph) @ added"
    and per_wire: "\<forall>w \<in> set (wires ex_cut). \<exists>meas prep.
       meas \<in> set new \<and> prep \<in> set new \<and> kind meas = MeasureNode \<and> kind prep = PrepareNode \<and>
       filter (\<lambda>e. e_wire e = Some w) added =
         mk_edge meas prep w #
         (case wire_pred ex_graph ex_cut w of None \<Rightarrow> [] | Some p \<Rightarrow> [mk_edge p meas w]) @
         (case wire_succ ex_graph ex_cut w of None \<Rightarrow> [] | Some s \<Rightarrow> [mk_edge prep s w])"
    by blast
  have one: "(1::nat) \<in> set (wires ex_cut)" by (simp add: w)
  from bspec [OF per_wire one] have "\<exists>meas prep.
       meas \<in> set new \<and> prep \<in> set new \<and> kind meas = MeasureNode \<and> kind prep = PrepareNode \<and>
       filter (\<lambda>e. e_wire e = Some 1) added =
         mk_edge meas prep 1 #
         (case wire_pred ex_graph ex_cut 1 of None \<Rightarrow> [] | Some p \<Rightarrow> [mk_edge p meas 1]) @
         (case wire_succ ex_graph ex_cut 1 of None \<Rightarrow> [] | Some s \<Rightarrow> [mk_edge prep s 1])" .
  then have pair: "\<exists>meas prep.
       meas \<in> set new \<and> prep \<in> set new \<and> kind meas = MeasureNode \<and> kind prep = PrepareNode \<and>
       filter (\<lambda>e. e_wire e = Some 1) added = [mk_edge meas prep 1, mk_edge prep ex_B 1]"
    unfolding p s by simp
  from run have run': "replace_wire_cut_node ex_cut (ex_graph, 7) = Inr (g', 11)"
    by (simp add: w)
  from nodes have nodes': "map fst (g_nodes g') =
      [ex_A, ex_B, term_node 5 [0], term_node 6 [1], ex_Q] @ new"
    unfolding keys .
  from new have new': "length new = 4" "distinct new" by (simp_all add: w)
  from count have count': "int (length (g_nodes g')) = 9" by (simp add: w len)
  from edges have edges': "g_edges g' =
      [mk_edge ex_B (term_node 6 [1]) 1, mk_edge (term_node 6 [1]) ex_Q 1] @ added"
    unfolding kept .
  from run' nodes' new' count' edges' pair show ?thesis
    by blast
qed

section \<open>What a replacement leaves untouched\<close>

lemma extends_refl: "extends g g"
  by (simp add: extends_def)

lemma extends_trans: "extends g g' \<Longrightarrow> extends g' g'' \<Longrightarrow> extends g g''"
  unfolding extends_def by (meson prefix_order.trans)

lemma extends_add_node:
  "\<not> has_node g x \<Longrightarrow> extends g (add_node g x a)"
  by (simp add: extends_def add_node_def)

lemma extends_touch_node: "extends g (touch_node g x)"
  by (simp add: extends_def touch_node_def)

lemma extends_add_edge: "extends g (add_edge g u v w)"
  by (simp add: extends_def add_edge_def touch_node_def Let_def)

lemma ids_below_add_node:
  "ids_below n g \<Longrightarrow> nid x < n \<Longrightarrow> ids_below n (add_node g x a)"
  by (auto simp: ids_below_def add_node_def has_node_def)

lemma ids_below_add_edge:
  "ids_below n g \<Longrightarrow> nid u < n \<Longrightarrow> nid v < n \<Longrightarrow> ids_below n (add_edge g u v w)"
  by (auto simp: ids_below_def add_edge_def touch_node_def Let_def)

lemma ids_below_mono: "ids_below n g \<Longrightarrow> n \<le> m \<Longrightarrow> ids_below m g"
  by (fastforce simp: ids_below_def)

lemma cut_wires_extends:
  assumes "ids_below n g"
    and "\<forall>w q. pw w = Some q \<longrightarrow> nid q < n"
    and "\<forall>w q. sw w = Some q \<longrightarrow> nid q < n"
  shows "extends g (fst (cut_wires pw sw order ws (g, n)))"
  using assms
proof (induction ws arbitrary: g n)
  case Nil
  then show ?case by (simp add: extends_refl)
next
  case (Cons w ws)
  let ?meas = "new_node MeasureNode n w"
  let ?prep = "new_node PrepareNode (Suc n) w"
  let ?g1 = "add_node g ?meas order"
  let ?g2 = "add_node ?g1 ?prep order"
  let ?g3 = "add_edge ?g2 ?meas ?prep w"
  let ?g4 = "case pw w of None \<Rightarrow> ?g3 | Some p \<Rightarrow> add_edge ?g3 p ?meas w"
  let ?g5 = "case sw w of None \<Rightarrow> ?g4 | Some s \<Rightarrow> add_edge ?g4 ?prep s w"
  have nm: "nid ?meas < n + 2" and np: "nid ?prep < n + 2"
    by (simp_all add: new_node_def)
  have m: "\<not> has_node g ?meas"
    by (rule ids_below_fresh [OF Cons.prems(1)]) (simp add: new_node_def)
  have p: "\<not> has_node ?g1 ?prep"
    using ids_below_fresh [OF Cons.prems(1), of ?prep] by (simp add: new_node_def)
  have pw2: "\<forall>w q. pw w = Some q \<longrightarrow> nid q < n + 2"
    and sw2: "\<forall>w q. sw w = Some q \<longrightarrow> nid q < n + 2"
    using Cons.prems(2,3) by (auto intro: less_trans)
  have e3: "extends g ?g3"
  proof -
    have "extends g ?g1" using m by (rule extends_add_node)
    moreover have "extends ?g1 ?g2" using p by (rule extends_add_node)
    moreover have "extends ?g2 ?g3" by (rule extends_add_edge)
    ultimately show ?thesis by (blast intro: extends_trans)
  qed
  have i3: "ids_below (n + 2) ?g3"
    by (intro ids_below_add_edge ids_below_add_node ids_below_mono [OF Cons.prems(1)] nm np) simp
  have e4: "extends g ?g4"
    using e3 extends_trans [OF e3 extends_add_edge] by (cases "pw w") simp_all
  have i4: "ids_below (n + 2) ?g4"
    using i3 pw2 nm by (cases "pw w") (simp_all add: ids_below_add_edge)
  have e5: "extends g ?g5"
    using e4 extends_trans [OF e4 extends_add_edge] by (cases "sw w") simp_all
  have i5: "ids_below (n + 2) ?g5"
    using i4 sw2 np by (cases "sw w") (simp_all add: ids_below_add_edge)
  have step: "cut_wires pw sw order (w # ws) (g, n) = cut_wires pw sw order ws (?g5, n + 2)"
    by (simp add: Let_def)
  show ?case
    unfolding step by (rule extends_trans [OF e5 Cons.IH [OF i5 pw2 sw2]])
qed


lemma extends_has_node: "extends g g' \<Longrightarrow> has_node g y \<Longrightarrow> has_node g' y"
  by (auto simp: extends_def has_node_def prefix_def)

lemma extends_node_order:
  assumes "extends g g'" "has_node g y"
  shows "node_order g' y = node_order g y"
proof -
  from assms(1) obtain ns where ns: "g_nodes g' = g_nodes g @ ns"
    by (auto simp: extends_def prefix_def)
  from assms(2) have "y \<in> dom (map_of (g_nodes g))"
    by (simp add: has_node_def dom_map_of_conv_image_fst)
  then have "map_of (g_nodes g') y = map_of (g_nodes g) y"
    unfolding ns map_of_append by (rule map_add_dom_app_simps(1))
  then show ?thesis by (simp add: node_order_def)
qed

lemma map_of_removed:
  "y \<noteq> x \<Longrightarrow> map_of (filter (\<lambda>(k, a). k \<noteq> x) ns) y = map_of ns y"
  by (induction ns) auto

lemma node_order_removed:
  "y \<noteq> x \<Longrightarrow>
   node_order \<lparr>g_nodes = filter (\<lambda>(k, a). k \<noteq> x) (g_nodes g), g_edges = es\<rparr> y = node_order g y"
  by (simp add: node_order_def map_of_removed)

lemma pred_scan_old:
  assumes "graph_ok g" "ids_below n g" "on_wire (pred_items g x) Map.empty = Inr pw"
  shows "\<forall>w q. pw w = Some q \<longrightarrow> nid q < n"
  using pred_scan_Some [OF assms(3)] graph_ok_edge [OF assms(1)] ids_below_nid [OF assms(2)]
  by blast

lemma succ_scan_old:
  assumes "graph_ok g" "ids_below n g" "on_wire (succ_items g x) Map.empty = Inr sw"
  shows "\<forall>w q. sw w = Some q \<longrightarrow> nid q < n"
  using succ_scan_Some [OF assms(3)] graph_ok_edge [OF assms(1)] ids_below_nid [OF assms(2)]
  by blast

text \<open>A call either raises and leaves the state as it was, or runs the loop over the wires.\<close>

lemma replace_cases:
  obtains (raised) e where "replace_wire_cut_node x (g, n) = Inl (e, (g, n))"
  | (returned) pw sw order where "has_node g x"
      "on_wire (pred_items g x) Map.empty = Inr pw"
      "on_wire (succ_items g x) Map.empty = Inr sw"
      "node_order g x = Some order"
      "replace_wire_cut_node x (g, n) =
        Inr (cut_wires pw sw order (wires x)
          (\<lparr>g_nodes = filter (\<lambda>(y, a). y \<noteq> x) (g_nodes g),
            g_edges = filter (\<lambda>e. e_src e \<noteq> x \<and> e_dst e \<noteq> x) (g_edges g)\<rparr>, n))"
proof (cases "has_node g x")
  case False
  then have "replace_wire_cut_node x (g, n) = Inl (KeyError, (g, n))"
    by (simp add: replace_wire_cut_node_def)
  then show ?thesis by (rule raised)
next
  case x: True
  show ?thesis
  proof (cases "on_wire (pred_items g x) Map.empty")
    case (Inl e)
    with x have "replace_wire_cut_node x (g, n) = Inl (e, (g, n))"
      by (simp add: replace_wire_cut_node_def)
    then show ?thesis by (rule raised)
  next
    case pw: (Inr pw)
    show ?thesis
    proof (cases "on_wire (succ_items g x) Map.empty")
      case (Inl e)
      with x pw have "replace_wire_cut_node x (g, n) = Inl (e, (g, n))"
        by (simp add: replace_wire_cut_node_def)
      then show ?thesis by (rule raised)
    next
      case sw: (Inr sw)
      show ?thesis
      proof (cases "node_order g x")
        case None
        with x pw sw have "replace_wire_cut_node x (g, n) = Inl (KeyError, (g, n))"
          by (simp add: replace_wire_cut_node_def)
        then show ?thesis by (rule raised)
      next
        case (Some order)
        with x pw sw show ?thesis
          by (intro returned [of pw sw order]) (simp_all add: replace_wire_cut_node_def remove_node_def)
      qed
    qed
  qed
qed

text \<open>
  Claim C10. \<^verbatim>\<open>replace_wire_cut_node\<close> leaves every other node untouched, whether
  it returns or raises: every node other than the replaced one is still in the graph,
  with the same order, and the edges whose endpoints both differ from the replaced node
  are still there, in the same sequence and with the same wires, before any edge that
  was added.
\<close>

theorem replace_frame:
  assumes ok: "graph_ok g" and ids: "ids_below n g"
    and g': "g' = fst (state_after (replace_wire_cut_node x (g, n)))"
  shows "(\<forall>y. has_node g y \<and> y \<noteq> x \<longrightarrow> has_node g' y \<and> node_order g' y = node_order g y) \<and>
    prefix (filter (\<lambda>e. e_src e \<noteq> x \<and> e_dst e \<noteq> x) (g_edges g))
      (filter (\<lambda>e. e_src e \<noteq> x \<and> e_dst e \<noteq> x) (g_edges g')) \<and>
    (\<forall>e \<in> set (g_edges g). e_src e \<noteq> x \<and> e_dst e \<noteq> x \<longrightarrow> e \<in> set (g_edges g'))"
proof (cases rule: replace_cases [of x g n])
  case (raised e)
  with g' have "g' = g" by (simp add: state_after_def)
  then show ?thesis by simp
next
  case (returned pw sw order)
  let ?g0 = "\<lparr>g_nodes = filter (\<lambda>(y, a). y \<noteq> x) (g_nodes g),
      g_edges = filter (\<lambda>e. e_src e \<noteq> x \<and> e_dst e \<noteq> x) (g_edges g)\<rparr>"
  from returned(5) g' have g'_eq: "g' = fst (cut_wires pw sw order (wires x) (?g0, n))"
    by (simp add: state_after_def)
  have ext: "extends ?g0 g'"
    unfolding g'_eq
    by (rule cut_wires_extends [OF ids_below_removed [OF ids]
          pred_scan_old [OF ok ids returned(2)] succ_scan_old [OF ok ids returned(3)]])
  have nodes: "has_node g' y \<and> node_order g' y = node_order g y" if "has_node g y" "y \<noteq> x" for y
  proof -
    from that have y0: "has_node ?g0 y" unfolding has_node_removed by blast
    from extends_has_node [OF ext y0] extends_node_order [OF ext y0] that(2)
    show ?thesis by (simp add: node_order_removed)
  qed
  from ext obtain es where es: "g_edges g' =
      filter (\<lambda>e. e_src e \<noteq> x \<and> e_dst e \<noteq> x) (g_edges g) @ es"
    by (auto simp: extends_def prefix_def)
  have "prefix (filter (\<lambda>e. e_src e \<noteq> x \<and> e_dst e \<noteq> x) (g_edges g))
      (filter (\<lambda>e. e_src e \<noteq> x \<and> e_dst e \<noteq> x) (g_edges g'))"
    unfolding es by simp
  moreover have "\<forall>e \<in> set (g_edges g). e_src e \<noteq> x \<and> e_dst e \<noteq> x \<longrightarrow> e \<in> set (g_edges g')"
    unfolding es by simp
  ultimately show ?thesis using nodes by blast
qed

subsection \<open>The example, evaluated\<close>

lemma ex_wire_pred:
  "wire_pred ex_graph ex_cut 0 = Some ex_A" "wire_pred ex_graph ex_cut 1 = None"
  "wire_pred ex_graph ex_cut (Suc 0) = None"
  by (simp_all add: wire_pred_def ex_defs)

lemma ex_wire_succ:
  "wire_succ ex_graph ex_cut 0 = Some (term_node 5 [0])" "wire_succ ex_graph ex_cut 1 = Some ex_B"
  "wire_succ ex_graph ex_cut (Suc 0) = Some ex_B"
  by (simp_all add: wire_succ_def ex_defs)

lemma ex_cut_order: "node_order ex_graph ex_cut = Some 1"
  by (simp add: node_order_def ex_defs)

lemma ex_rewired:
  "rewired ex_graph ex_cut 7 1 (wire_pred ex_graph ex_cut) (wire_succ ex_graph ex_cut) = ex_after"
proof -
  have w: "wires ex_cut = [0, 1]" by (simp add: ex_cut_def)
  have nodes: "filter (\<lambda>(y, a). y \<noteq> ex_cut) (g_nodes ex_graph) =
      [(ex_A, Some 0), (ex_B, Some 2),
       (term_node 5 [0], Some 3), (term_node 6 [1], Some 3), (ex_Q, Some 3)]"
    by (simp add: ex_defs)
  have edges: "filter (\<lambda>e. e_src e \<noteq> ex_cut \<and> e_dst e \<noteq> ex_cut) (g_edges ex_graph) =
      [mk_edge ex_B (term_node 6 [1]) 1, mk_edge (term_node 6 [1]) ex_Q 1]"
    by (simp add: ex_defs)
  have new_nodes: "cut_nodes 7 1 [0, 1::nat] =
      [(new_node MeasureNode 7 0, Some 1), (new_node PrepareNode 8 0, Some 1),
       (new_node MeasureNode 9 1, Some 1), (new_node PrepareNode 10 1, Some 1)]"
    by simp
  have new_edges: "cut_edges (wire_pred ex_graph ex_cut) (wire_succ ex_graph ex_cut) 7 [0, 1] =
      [mk_edge (new_node MeasureNode 7 0) (new_node PrepareNode 8 0) 0,
       mk_edge ex_A (new_node MeasureNode 7 0) 0,
       mk_edge (new_node PrepareNode 8 0) (term_node 5 [0]) 0,
       mk_edge (new_node MeasureNode 9 1) (new_node PrepareNode 10 1) 1,
       mk_edge (new_node PrepareNode 10 1) ex_B 1]"
    by (simp add: ex_wire_pred ex_wire_succ)
  show ?thesis
    unfolding rewired_def w nodes edges new_nodes new_edges ex_after_def by simp
qed

lemma ex_replaced: "replace_wire_cut_node ex_cut (ex_graph, 7) = Inr (ex_after, 11)"
proof -
  from replace_chain [OF ex_graph_ok ex_attrs_ok ex_ids_below ex_chain ex_has_cut]
  show ?thesis
    by (simp add: ex_cut_order ex_rewired) (simp add: ex_cut_def)
qed

lemma kind_term_node: "kind (term_node i ws) = MeasurementProcess"
  by (simp add: term_node_def)

lemma ex_replaced_all: "replace_wire_cut_nodes (ex_graph, 7) = Inr (ex_after, 11)"
proof -
  have keys: "map fst (g_nodes ex_graph) =
      [ex_A, ex_cut, ex_B, term_node 5 [0], term_node 6 [1], ex_Q]"
    by (simp add: ex_graph_def)
  have kinds: "kind ex_A = Gate" "kind ex_cut = WireCut" "kind ex_B = Gate"
    "kind ex_Q = MeasurementProcess"
    by (simp_all add: ex_A_def ex_cut_def ex_B_def ex_Q_def)
  show ?thesis
    unfolding replace_wire_cut_nodes_def fst_conv keys
    by (simp only: replace_loop.simps kinds kind_term_node ex_replaced kind.simps if_True
        if_False sum.case simp_thms)
qed


theorem replace_frame_witness:
  "replace_wire_cut_node ex_cut (ex_graph, 7) = Inr (ex_after, 11) \<and>
   has_node ex_graph ex_A \<and> ex_A \<noteq> ex_cut \<and>
   has_node ex_after ex_A \<and> node_order ex_after ex_A = node_order ex_graph ex_A \<and>
   node_order ex_graph ex_A = Some 0 \<and>
   prefix [mk_edge ex_B (term_node 6 [1]) 1, mk_edge (term_node 6 [1]) ex_Q 1]
     (filter (\<lambda>e. e_src e \<noteq> ex_cut \<and> e_dst e \<noteq> ex_cut) (g_edges ex_after))"
proof -
  have after: "ex_after = fst (state_after (replace_wire_cut_node ex_cut (ex_graph, 7)))"
    by (simp add: ex_replaced state_after_def)
  have a: "has_node ex_graph ex_A" "ex_A \<noteq> ex_cut" "node_order ex_graph ex_A = Some 0"
    by (simp_all add: has_node_def node_order_def ex_defs)
  have kept: "filter (\<lambda>e. e_src e \<noteq> ex_cut \<and> e_dst e \<noteq> ex_cut) (g_edges ex_graph) =
      [mk_edge ex_B (term_node 6 [1]) 1, mk_edge (term_node 6 [1]) ex_Q 1]"
    by (simp add: ex_defs)
  from replace_frame [OF ex_graph_ok ex_ids_below after] a ex_replaced show ?thesis
    unfolding kept by blast
qed

end
